theory Spec2Isabelle
  imports Complex_Main "HOL-Library.Word" "HOL-Library.Multiset" "HOL-Library.AList"
    "HOL-Library.Sublist"
begin

section \<open>Values, slices, faults\<close>

text \<open>
  An element of a pipeline is a Go \<^verbatim>\<open>interface{}\<close> value: either the nil interface
  (the zero value that \<^verbatim>\<open>make\<close> fills a fresh slice with and that an unset named
  result holds) or a value of some dynamic type. The dynamic values are a type parameter
  \<open>'a\<close>.
\<close>

datatype 'a iface = NilValue | Val 'a

text \<open>
  The sentinel errors of the package, and \<open>ErrOther\<close> for every other error value, such
  as one returned by a caller-supplied callable.
\<close>

datatype error =
    ErrNilFunc
  | ErrNilInput
  | ErrNoElement
  | ErrEmptySequence
  | ErrNegativeParam
  | ErrNan
  | ErrTypeMismatch
  | ErrOther string

text \<open>
  A call either returns or stops with a run-time panic: an index or a slice bound out of
  range, a length that \<^verbatim>\<open>make\<close> cannot allocate, a map key that cannot be hashed, a
  comparison of values of a type that is not comparable.
\<close>

datatype 'r run = Panic | Return 'r

text \<open>Go's \<^verbatim>\<open>int\<close> on a 64-bit platform: \<open>+\<close> wraps, \<open>sint\<close> reads the value.\<close>

type_synonym go_int = "64 word"

text \<open>
  A slice is \<open>None\<close> (the nil slice) or \<open>Some xs\<close>. A nil slice has length 0, ranges over
  nothing, and \<^verbatim>\<open>append\<close> to it allocates.
\<close>

type_synonym 'e slice = "'e list option"

definition elems :: "'e slice \<Rightarrow> 'e list" where
  "elems s = (case s of None \<Rightarrow> [] | Some xs \<Rightarrow> xs)"

definition len :: "'e slice \<Rightarrow> int" where
  "len s = int (length (elems s))"

definition append_go :: "'e slice \<Rightarrow> 'e \<Rightarrow> 'e slice" where
  "append_go s x = Some (elems s @ [x])"

text \<open>
  \<^verbatim>\<open>make([]interface{}, n)\<close>. With the length of a live slice or map the allocation is of
  a size that the run time has handled already (\<open>make_slice\<close>). With a length supplied by the
  caller it panics when the length is negative or beyond the largest length that the run
  time can allocate, a number \<open>max_len\<close> that depends on the platform (\<open>make_checked\<close>).
\<close>

definition make_slice :: "nat \<Rightarrow> 'a iface list" where
  "make_slice n = replicate n NilValue"

definition make_checked :: "nat \<Rightarrow> int \<Rightarrow> 'a iface list run" where
  "make_checked max_len n =
     (if 0 \<le> n \<and> n \<le> int max_len then Return (make_slice (nat n)) else Panic)"

text \<open>
  \<^verbatim>\<open>s[:n]\<close> panics unless \<open>0 \<le> n \<le> cap(s)\<close>, and \<^verbatim>\<open>s[n:]\<close> unless \<open>0 \<le> n \<le> len(s)\<close>. The
  capacity of a slice is its length plus the length of \<open>spare\<close>, the part of its backing
  array beyond its length, which \<^verbatim>\<open>s[:n]\<close> can reach; the nil slice has capacity 0. A
  slice of the nil slice is nil.
\<close>

definition slice_to :: "'e slice \<Rightarrow> 'e list \<Rightarrow> int \<Rightarrow> 'e slice run" where
  "slice_to s spare n =
     (case s of
        None \<Rightarrow> (if n = 0 then Return None else Panic)
      | Some xs \<Rightarrow>
          (if 0 \<le> n \<and> n \<le> int (length xs) + int (length spare)
           then Return (Some (take (nat n) (xs @ spare)))
           else Panic))"

definition slice_from :: "'e slice \<Rightarrow> int \<Rightarrow> 'e slice run" where
  "slice_from s n =
     (case s of
        None \<Rightarrow> (if n = 0 then Return None else Panic)
      | Some xs \<Rightarrow>
          (if 0 \<le> n \<and> n \<le> int (length xs) then Return (Some (drop (nat n) xs)) else Panic))"

text \<open>\<^verbatim>\<open>xs[i]\<close> and \<^verbatim>\<open>xs[i] = v\<close>: out of range is a panic.\<close>

definition index :: "'e list \<Rightarrow> int \<Rightarrow> 'e run" where
  "index xs i = (if 0 \<le> i \<and> i < int (length xs) then Return (xs ! nat i) else Panic)"

definition assign :: "'e list \<Rightarrow> int \<Rightarrow> 'e \<Rightarrow> 'e list run" where
  "assign xs i v = (if 0 \<le> i \<and> i < int (length xs) then Return (xs[nat i := v]) else Panic)"

text \<open>
  What the run time does with dynamic values is a parameter of the model. \<open>hashable x\<close>
  says that \<open>x\<close> can be hashed, that is, that its dynamic type is comparable; a slice, a
  map or a func is not. \<open>eq_values x y\<close> is \<^verbatim>\<open>x == y\<close>: false for values of different
  dynamic types, a panic for two values of one type that is not comparable, false for a
  floating-point NaN and itself, true for \<open>+0.0\<close> and \<open>-0.0\<close>.
\<close>

record 'a dynamics =
  hashable :: "'a \<Rightarrow> bool"
  eq_values :: "'a \<Rightarrow> 'a \<Rightarrow> bool run"

definition hashable_iface :: "'a dynamics \<Rightarrow> 'a iface \<Rightarrow> bool" where
  "hashable_iface d v = (case v of NilValue \<Rightarrow> True | Val x \<Rightarrow> hashable d x)"

fun equal_iface :: "'a dynamics \<Rightarrow> 'a iface \<Rightarrow> 'a iface \<Rightarrow> bool run" where
  "equal_iface d NilValue NilValue = Return True"
| "equal_iface d (Val x) (Val y) = eq_values d x y"
| "equal_iface d a b = Return False"

text \<open>
  A Go map keyed by \<^verbatim>\<open>interface{}\<close> is an association list; an entry is found by a key
  that is \<^verbatim>\<open>==\<close> to its key. Every operation hashes the key it is given and panics when
  that key is not hashable. \<open>map_index\<close> is \<^verbatim>\<open>v, ok := m[k]\<close>, \<open>map_assign\<close> is
  \<^verbatim>\<open>m[k] = v\<close> (an entry that is found keeps its key), \<open>map_delete\<close> is \<^verbatim>\<open>delete(m, k)\<close>.
\<close>

fun map_find :: "'k dynamics \<Rightarrow> ('k iface \<times> 'v) list \<Rightarrow> 'k iface \<Rightarrow> ('k iface \<times> 'v) option" where
  "map_find d [] k = None"
| "map_find d ((k', v) # m) k =
     (if equal_iface d k' k = Return True then Some (k', v) else map_find d m k)"

fun map_put :: "'k dynamics \<Rightarrow> ('k iface \<times> 'v) list \<Rightarrow> 'k iface \<Rightarrow> 'v \<Rightarrow> ('k iface \<times> 'v) list" where
  "map_put d [] k v = [(k, v)]"
| "map_put d ((k', v') # m) k v =
     (if equal_iface d k' k = Return True then (k', v) # m else (k', v') # map_put d m k v)"

fun map_remove :: "'k dynamics \<Rightarrow> ('k iface \<times> 'v) list \<Rightarrow> 'k iface \<Rightarrow> ('k iface \<times> 'v) list" where
  "map_remove d [] k = []"
| "map_remove d ((k', v') # m) k =
     (if equal_iface d k' k = Return True then map_remove d m k else (k', v') # map_remove d m k)"

definition map_index :: "'k dynamics \<Rightarrow> ('k iface \<times> 'v) list \<Rightarrow> 'k iface \<Rightarrow> 'v option run" where
  "map_index d m k =
     (if hashable_iface d k then Return (map_option snd (map_find d m k)) else Panic)"

definition map_assign ::
  "'k dynamics \<Rightarrow> ('k iface \<times> 'v) list \<Rightarrow> 'k iface \<Rightarrow> 'v \<Rightarrow> ('k iface \<times> 'v) list run" where
  "map_assign d m k v = (if hashable_iface d k then Return (map_put d m k v) else Panic)"

definition map_delete ::
  "'k dynamics \<Rightarrow> ('k iface \<times> 'v) list \<Rightarrow> 'k iface \<Rightarrow> ('k iface \<times> 'v) list run" where
  "map_delete d m k = (if hashable_iface d k then Return (map_remove d m k) else Panic)"

text \<open>
  On the values of a set \<open>S\<close>, \<^verbatim>\<open>==\<close> is identity when it never panics, no value is a NaN
  and no two distinguishable values are \<^verbatim>\<open>==\<close>. The values are plain when, moreover, each
  can be hashed. \<open>plain_dynamics\<close> is the run time on a type of such values (integers,
  strings).
\<close>

definition identity_eq :: "'a dynamics \<Rightarrow> 'a iface set \<Rightarrow> bool" where
  "identity_eq d S \<longleftrightarrow> (\<forall>x\<in>S. \<forall>y\<in>S. equal_iface d x y = Return (x = y))"

definition plain_values :: "'a dynamics \<Rightarrow> 'a iface set \<Rightarrow> bool" where
  "plain_values d S \<longleftrightarrow> (\<forall>x\<in>S. hashable_iface d x) \<and> identity_eq d S"

definition plain_dynamics :: "'a dynamics" where
  "plain_dynamics = \<lparr>hashable = (\<lambda>x. True), eq_values = (\<lambda>x y. Return (x = y))\<rparr>"

text \<open>
  Values for an example: integers, slices of integers (not comparable) and the
  floating-point NaN.
\<close>

datatype ex_value = ExInt int | ExSlice "int list" | ExNaN

fun ex_eq :: "ex_value \<Rightarrow> ex_value \<Rightarrow> bool run" where
  "ex_eq (ExInt a) (ExInt b) = Return (a = b)"
| "ex_eq (ExSlice a) (ExSlice b) = Panic"
| "ex_eq a b = Return False"

fun ex_hashable :: "ex_value \<Rightarrow> bool" where
  "ex_hashable (ExSlice a) = False"
| "ex_hashable a = True"

definition ex_dynamics :: "ex_value dynamics" where
  "ex_dynamics = \<lparr>hashable = ex_hashable, eq_values = ex_eq\<rparr>"

text \<open>
  The order in which \<^verbatim>\<open>range\<close> visits a map is chosen by the run time: every function
  that ranges over a map takes that choice as an argument \<open>ord\<close>, a function that permutes
  the entries.
\<close>

definition iteration_order :: "(('k \<times> 'v) list \<Rightarrow> ('k \<times> 'v) list) \<Rightarrow> bool" where
  "iteration_order ord \<longleftrightarrow> (\<forall>m. mset (ord m) = mset m)"

text \<open>
  \<^verbatim>\<open>res := make([]interface{}, len(m)); i := 0; for k := range m { res[i] = k; i++ }\<close>
\<close>

fun fill :: "'e list \<Rightarrow> int \<Rightarrow> 'e list \<Rightarrow> 'e list run" where
  "fill res i [] = Return res"
| "fill res i (k # ks) =
     (case assign res i k of Panic \<Rightarrow> Panic | Return res' \<Rightarrow> fill res' (i + 1) ks)"

section \<open>The pipeline\<close>

record 'a queryable =
  "values" :: "'a iface slice"
  err :: "error option"
  less_q :: "('a iface \<Rightarrow> 'a iface \<Rightarrow> bool) option"

text \<open>The zero value of the struct, which every named result \<^verbatim>\<open>r\<close> starts from.\<close>

definition zero_q :: "'a queryable" where
  "zero_q = \<lparr>values = None, err = None, less_q = None\<rparr>"

definition From :: "'a iface slice \<Rightarrow> 'a queryable" where
  "From input = \<lparr>values = input,
                 err = (if input = None then Some ErrNilInput else None),
                 less_q = None\<rparr>"

definition Results :: "'a queryable \<Rightarrow> 'a iface slice \<times> error option" where
  "Results q = (values q, err q)"

text \<open>
  A caller-supplied callable is \<open>None\<close> (a nil func) or a function; a predicate returns
  the pair \<^verbatim>\<open>(bool, error)\<close>.
\<close>

type_synonym 'a predicate = "('a iface \<Rightarrow> bool \<times> error option) option"
type_synonym 'a equivalence = "('a iface \<Rightarrow> 'a iface \<Rightarrow> bool \<times> error option) option"

subsection \<open>Where\<close>

fun Where_loop ::
  "('a iface \<Rightarrow> bool \<times> error option) \<Rightarrow> 'a iface list \<Rightarrow> 'a queryable \<Rightarrow> 'a queryable" where
  "Where_loop f [] r = r"
| "Where_loop f (i # rest) r =
     (case f i of
        (ok, Some e) \<Rightarrow> r\<lparr>err := Some e\<rparr>
      | (ok, None) \<Rightarrow> Where_loop f rest (if ok then r\<lparr>values := append_go (values r) i\<rparr> else r))"

definition Where :: "'a queryable \<Rightarrow> 'a predicate \<Rightarrow> 'a queryable" where
  "Where q f =
     (if err q \<noteq> None then zero_q\<lparr>err := err q\<rparr>
      else case f of
        None \<Rightarrow> zero_q\<lparr>err := Some ErrNilFunc\<rparr>
      | Some f' \<Rightarrow> Where_loop f' (elems (values q)) zero_q)"

subsection \<open>Distinct and DistinctBy\<close>

text \<open>The inner loop \<^verbatim>\<open>for j := i + 1; j < l; j++\<close>: a fault of the callable, or the flags.\<close>

function distinct_inner ::
  "('a iface \<Rightarrow> 'a iface \<Rightarrow> bool \<times> error option) \<Rightarrow> 'a iface list \<Rightarrow> int \<Rightarrow> int \<Rightarrow>
     bool list \<Rightarrow> (error + bool list) run" where
  "distinct_inner f vs i j included =
     (if j < int (length vs) then
        (case index vs i of
           Panic \<Rightarrow> Panic
         | Return x \<Rightarrow>
             (case index vs j of
                Panic \<Rightarrow> Panic
              | Return y \<Rightarrow>
                  (case f x y of
                     (equals, Some e) \<Rightarrow> Return (Inl e)
                   | (equals, None) \<Rightarrow>
                       (if equals then
                          (case assign included j True of
                             Panic \<Rightarrow> Panic
                           | Return included' \<Rightarrow> distinct_inner f vs i (j + 1) included')
                        else distinct_inner f vs i (j + 1) included))))
      else Return (Inr included))"
  by pat_completeness auto
termination
  by (relation "measure (\<lambda>(f, vs, i, j, included). nat (int (length vs) - j))") auto

declare distinct_inner.simps [simp del]

text \<open>The outer loop \<^verbatim>\<open>for i := 0; i < l; i++\<close>: a fault, or the kept elements.\<close>

function distinct_outer ::
  "('a iface \<Rightarrow> 'a iface \<Rightarrow> bool \<times> error option) \<Rightarrow> 'a iface list \<Rightarrow> int \<Rightarrow>
     bool list \<Rightarrow> 'a iface list \<Rightarrow> (error + 'a iface list) run" where
  "distinct_outer f vs i included results =
     (if i < int (length vs) then
        (case index included i of
           Panic \<Rightarrow> Panic
         | Return skip \<Rightarrow>
             (if skip then distinct_outer f vs (i + 1) included results
              else
                (case distinct_inner f vs i (i + 1) included of
                   Panic \<Rightarrow> Panic
                 | Return (Inl e) \<Rightarrow> Return (Inl e)
                 | Return (Inr included') \<Rightarrow>
                     (case index vs i of
                        Panic \<Rightarrow> Panic
                      | Return x \<Rightarrow> distinct_outer f vs (i + 1) included' (results @ [x])))))
      else Return (Inr results))"
  by pat_completeness auto
termination
  by (relation "measure (\<lambda>(f, vs, i, included, results). nat (int (length vs) - i))") auto

declare distinct_outer.simps [simp del]

text \<open>The first loop of the \<^verbatim>\<open>f == nil\<close> branch: the set of the values, as a map.\<close>

fun to_set ::
  "'a dynamics \<Rightarrow> 'a iface list \<Rightarrow> ('a iface \<times> bool) list \<Rightarrow> ('a iface \<times> bool) list run" where
  "to_set d [] dict = Return dict"
| "to_set d (v # vs) dict =
     (case map_index d dict v of
        Panic \<Rightarrow> Panic
      | Return (Some b) \<Rightarrow> to_set d vs dict
      | Return None \<Rightarrow>
          (case map_assign d dict v True of
             Panic \<Rightarrow> Panic
           | Return dict' \<Rightarrow> to_set d vs dict'))"

definition distinct_go ::
  "'a dynamics \<Rightarrow> (('a iface \<times> bool) list \<Rightarrow> ('a iface \<times> bool) list) \<Rightarrow> 'a queryable \<Rightarrow>
     'a equivalence \<Rightarrow> 'a queryable run" where
  "distinct_go d ord q f =
     (if err q \<noteq> None then Return (zero_q\<lparr>err := err q\<rparr>)
      else case f of
        None \<Rightarrow>
          (case to_set d (elems (values q)) [] of
             Panic \<Rightarrow> Panic
           | Return dict \<Rightarrow>
               (case fill (make_slice (length dict)) 0 (map fst (ord dict)) of
                  Panic \<Rightarrow> Panic
                | Return res \<Rightarrow> Return (zero_q\<lparr>values := Some res\<rparr>)))
      | Some f' \<Rightarrow>
          (let l = length (elems (values q))
           in case distinct_outer f' (elems (values q)) 0 (replicate l False) [] of
                Panic \<Rightarrow> Panic
              | Return (Inl e) \<Rightarrow> Return (zero_q\<lparr>err := Some e\<rparr>)
              | Return (Inr results) \<Rightarrow> Return (zero_q\<lparr>values := Some results\<rparr>)))"

definition Distinct ::
  "'a dynamics \<Rightarrow> (('a iface \<times> bool) list \<Rightarrow> ('a iface \<times> bool) list) \<Rightarrow> 'a queryable \<Rightarrow>
     'a queryable run" where
  "Distinct d ord q = distinct_go d ord q None"

definition DistinctBy ::
  "'a dynamics \<Rightarrow> (('a iface \<times> bool) list \<Rightarrow> ('a iface \<times> bool) list) \<Rightarrow> 'a queryable \<Rightarrow>
     'a equivalence \<Rightarrow> 'a queryable run" where
  "DistinctBy d ord q f =
     (case f of
        None \<Rightarrow> Return (zero_q\<lparr>err := Some ErrNilFunc\<rparr>)
      | Some f' \<Rightarrow> distinct_go d ord q f)"

text \<open>
  The policy of \<open>DistinctBy\<close> as the specification words it, on a list of elements paired
  with their excluded flag. \<open>exclude_later f x rest\<close> compares \<open>x\<close> against every later
  element in order; a fault of the predicate aborts, a confirmed equivalence marks the
  later element as excluded.
\<close>

fun exclude_later ::
  "('a iface \<Rightarrow> 'a iface \<Rightarrow> bool \<times> error option) \<Rightarrow> 'a iface \<Rightarrow> ('a iface \<times> bool) list \<Rightarrow>
     error + ('a iface \<times> bool) list" where
  "exclude_later f x [] = Inr []"
| "exclude_later f x ((y, excluded) # rest) =
     (case f x y of
        (equals, Some e) \<Rightarrow> Inl e
      | (equals, None) \<Rightarrow>
          (case exclude_later f x rest of
             Inl e \<Rightarrow> Inl e
           | Inr rest' \<Rightarrow> Inr ((y, excluded \<or> equals) # rest')))"

lemma exclude_later_fst:
  "exclude_later f x ps = Inr ps' \<Longrightarrow> map fst ps' = map fst ps"
  by (induction ps arbitrary: ps') (auto split: prod.splits option.splits sum.splits)

lemma exclude_later_length [simp]:
  "exclude_later f x ps = Inr ps' \<Longrightarrow> length ps' = length ps"
  using exclude_later_fst [of f x ps ps'] by (metis length_map)

text \<open>
  \<open>kept_in_order\<close> visits the elements in order: an excluded one is skipped, any other is
  compared against every later element and then kept.
\<close>

function kept_in_order ::
  "('a iface \<Rightarrow> 'a iface \<Rightarrow> bool \<times> error option) \<Rightarrow> ('a iface \<times> bool) list \<Rightarrow>
     error + 'a iface list" where
  "kept_in_order f [] = Inr []"
| "kept_in_order f ((x, True) # rest) = kept_in_order f rest"
| "kept_in_order f ((x, False) # rest) =
     (case exclude_later f x rest of
        Inl e \<Rightarrow> Inl e
      | Inr rest' \<Rightarrow>
          (case kept_in_order f rest' of
             Inl e \<Rightarrow> Inl e
           | Inr kept \<Rightarrow> Inr (x # kept)))"
  by pat_completeness auto
termination
  by (relation "measure (\<lambda>(f, ps). length ps)") auto

text \<open>Two equivalence predicates for an example: equality, and one that faults on \<open>3\<close>.\<close>

definition ex_same :: "nat iface \<Rightarrow> nat iface \<Rightarrow> bool \<times> error option" where
  "ex_same a b = (a = b, None)"

definition ex_faulty :: "nat iface \<Rightarrow> nat iface \<Rightarrow> bool \<times> error option" where
  "ex_faulty a b = (if b = Val 3 then (False, Some (ErrOther ''bad'')) else (a = b, None))"


subsection \<open>Except\<close>

text \<open>\<^verbatim>\<open>for _, v := range in { delete(set, v) }\<close>\<close>

fun delete_all ::
  "'a dynamics \<Rightarrow> 'a iface list \<Rightarrow> ('a iface \<times> bool) list \<Rightarrow> ('a iface \<times> bool) list run" where
  "delete_all d [] m = Return m"
| "delete_all d (v # vs) m =
     (case map_delete d m v of
        Panic \<Rightarrow> Panic
      | Return m' \<Rightarrow> delete_all d vs m')"

definition Except ::
  "'a dynamics \<Rightarrow> (('a iface \<times> bool) list \<Rightarrow> ('a iface \<times> bool) list) \<Rightarrow> 'a queryable \<Rightarrow>
     'a iface slice \<Rightarrow> 'a queryable run" where
  "Except d ord q input =
     (if err q \<noteq> None then Return (zero_q\<lparr>err := err q\<rparr>)
      else case input of
        None \<Rightarrow> Return (zero_q\<lparr>err := Some ErrNilInput\<rparr>)
      | Some ys \<Rightarrow>
          (case to_set d (elems (values q)) [] of
             Panic \<Rightarrow> Panic
           | Return set1 \<Rightarrow>
               (case delete_all d ys set1 of
                  Panic \<Rightarrow> Panic
                | Return set2 \<Rightarrow>
                    (case fill (make_slice (length set2)) 0 (map fst (ord set2)) of
                       Panic \<Rightarrow> Panic
                     | Return res \<Rightarrow> Return (zero_q\<lparr>values := Some res\<rparr>)))))"

subsection \<open>All\<close>

fun All_loop ::
  "('a iface \<Rightarrow> bool \<times> error option) \<Rightarrow> 'a iface list \<Rightarrow> bool \<Rightarrow> bool \<times> error option" where
  "All_loop f [] all = (all, None)"
| "All_loop f (i # rest) all =
     (case f i of
        (ok, Some e) \<Rightarrow> (all, Some e)
      | (ok, None) \<Rightarrow> All_loop f rest (all \<and> ok))"

definition All_go :: "'a queryable \<Rightarrow> 'a predicate \<Rightarrow> bool \<times> error option" where
  "All_go q f =
     (if err q \<noteq> None then (False, err q)
      else case f of
        None \<Rightarrow> (False, Some ErrNilFunc)
      | Some f' \<Rightarrow> All_loop f' (elems (values q)) True)"

subsection \<open>Element access\<close>

text \<open>The results are the pair \<^verbatim>\<open>(elem, err)\<close>; \<open>i + 1\<close> is machine addition.\<close>

definition ElementAt :: "'a queryable \<Rightarrow> go_int \<Rightarrow> ('a iface \<times> error option) run" where
  "ElementAt q i =
     (if err q \<noteq> None then Return (NilValue, err q)
      else if sint i < 0 then Return (NilValue, Some ErrNegativeParam)
      else if len (values q) < sint (i + 1) then Return (NilValue, Some ErrNoElement)
      else case index (elems (values q)) (sint i) of
             Panic \<Rightarrow> Panic
           | Return x \<Rightarrow> Return (x, None))"

definition ElementAtOrNil :: "'a queryable \<Rightarrow> go_int \<Rightarrow> ('a iface \<times> error option) run" where
  "ElementAtOrNil q i =
     (if err q \<noteq> None then Return (NilValue, err q)
      else if sint i < 0 then Return (NilValue, Some ErrNegativeParam)
      else if len (values q) > sint i then
        (case index (elems (values q)) (sint i) of
           Panic \<Rightarrow> Panic
         | Return x \<Rightarrow> Return (x, None))
      else Return (NilValue, None))"

definition First :: "'a queryable \<Rightarrow> ('a iface \<times> error option) run" where
  "First q =
     (if err q \<noteq> None then Return (NilValue, err q)
      else if len (values q) = 0 then Return (NilValue, Some ErrNoElement)
      else case index (elems (values q)) 0 of
             Panic \<Rightarrow> Panic
           | Return x \<Rightarrow> Return (x, None))"

definition FirstOrNil :: "'a queryable \<Rightarrow> ('a iface \<times> error option) run" where
  "FirstOrNil q =
     (if err q \<noteq> None then Return (NilValue, err q)
      else if len (values q) > 0 then
        (case index (elems (values q)) 0 of
           Panic \<Rightarrow> Panic
         | Return x \<Rightarrow> Return (x, None))
      else Return (NilValue, None))"

definition Last :: "'a queryable \<Rightarrow> ('a iface \<times> error option) run" where
  "Last q =
     (if err q \<noteq> None then Return (NilValue, err q)
      else if len (values q) = 0 then Return (NilValue, Some ErrNoElement)
      else case index (elems (values q)) (len (values q) - 1) of
             Panic \<Rightarrow> Panic
           | Return x \<Rightarrow> Return (x, None))"

definition LastOrNil :: "'a queryable \<Rightarrow> ('a iface \<times> error option) run" where
  "LastOrNil q =
     (if err q \<noteq> None then Return (NilValue, err q)
      else if len (values q) > 0 then
        (case index (elems (values q)) (len (values q) - 1) of
           Panic \<Rightarrow> Panic
         | Return x \<Rightarrow> Return (x, None))
      else Return (NilValue, None))"

subsection \<open>Reverse, Take, Skip\<close>

function Reverse_loop :: "'e list \<Rightarrow> int \<Rightarrow> int \<Rightarrow> 'e list \<Rightarrow> 'e list run" where
  "Reverse_loop src i j dst =
     (if i \<ge> 0 then
        (case index src i of
           Panic \<Rightarrow> Panic
         | Return x \<Rightarrow>
             (case assign dst j x of
                Panic \<Rightarrow> Panic
              | Return dst' \<Rightarrow> Reverse_loop src (i - 1) (j + 1) dst'))
      else Return dst)"
  by pat_completeness auto
termination
  by (relation "measure (\<lambda>(src, i, j, dst). nat (i + 1))") auto

declare Reverse_loop.simps [simp del]

definition Reverse :: "'a queryable \<Rightarrow> 'a queryable run" where
  "Reverse q =
     (if err q \<noteq> None then Return (zero_q\<lparr>err := err q\<rparr>)
      else
        (let c = len (values q)
         in case Reverse_loop (elems (values q)) (c - 1) 0 (make_slice (nat c)) of
              Panic \<Rightarrow> Panic
            | Return res \<Rightarrow> Return (zero_q\<lparr>values := Some res\<rparr>)))"

text \<open>The two guards that \<open>Take\<close> and \<open>Skip\<close> apply to \<open>n\<close>, in the source's order.\<close>

definition clamp :: "'e slice \<Rightarrow> go_int \<Rightarrow> int" where
  "clamp s n =
     (let n1 = (if sint n < 0 then 0 else sint n)
      in if n1 \<ge> len s then len s else n1)"

text \<open>\<open>spare\<close> is the part of the backing array of \<^verbatim>\<open>q.values\<close> beyond its length.\<close>

definition Take :: "'a iface list \<Rightarrow> 'a queryable \<Rightarrow> go_int \<Rightarrow> 'a queryable run" where
  "Take spare q n =
     (if err q \<noteq> None then Return (zero_q\<lparr>err := err q\<rparr>)
      else case slice_to (values q) spare (clamp (values q) n) of
             Panic \<Rightarrow> Panic
           | Return s \<Rightarrow> Return (zero_q\<lparr>values := s\<rparr>))"

definition Skip :: "'a queryable \<Rightarrow> go_int \<Rightarrow> 'a queryable run" where
  "Skip q n =
     (if err q \<noteq> None then Return (zero_q\<lparr>err := err q\<rparr>)
      else case slice_from (values q) (clamp (values q) n) of
             Panic \<Rightarrow> Panic
           | Return s \<Rightarrow> Return (zero_q\<lparr>values := s\<rparr>))"

definition Count :: "'a queryable \<Rightarrow> int \<times> error option" where
  "Count q = (len (values q), err q)"

subsection \<open>GroupJoin\<close>

text \<open>
  The maps of \<open>GroupJoin\<close> are \<^verbatim>\<open>innerKeyLookup\<close> (inner element to its memoized key) and
  \<^verbatim>\<open>results\<close> (outer element to its bucket). The run time is given for the outer
  elements (\<open>da\<close>), the inner elements (\<open>db\<close>) and the keys (\<open>dk\<close>).

  \<^verbatim>\<open>innerKey, ok := innerKeyLookup[inner]; if !ok { ... }\<close>: the key and the memo.
\<close>

definition memo_key ::
  "'b dynamics \<Rightarrow> ('b iface \<Rightarrow> 'k iface) \<Rightarrow> ('b iface \<times> 'k iface) list \<Rightarrow> 'b iface \<Rightarrow>
     ('k iface \<times> ('b iface \<times> 'k iface) list) run" where
  "memo_key db innerKeySelector innerKeyLookup inner =
     (case map_index db innerKeyLookup inner of
        Panic \<Rightarrow> Panic
      | Return (Some innerKey) \<Rightarrow> Return (innerKey, innerKeyLookup)
      | Return None \<Rightarrow>
          (case map_assign db innerKeyLookup inner (innerKeySelector inner) of
             Panic \<Rightarrow> Panic
           | Return innerKeyLookup' \<Rightarrow> Return (innerKeySelector inner, innerKeyLookup')))"

text \<open>
  \<^verbatim>\<open>results[outer] = append(results[outer], inner)\<close>; a key that is absent reads as the
  nil slice.
\<close>

definition add_to_bucket ::
  "'a dynamics \<Rightarrow> ('a iface \<times> 'b iface slice) list \<Rightarrow> 'a iface \<Rightarrow> 'b iface \<Rightarrow>
     ('a iface \<times> 'b iface slice) list run" where
  "add_to_bucket da results outer inner =
     (case map_index da results outer of
        Panic \<Rightarrow> Panic
      | Return found \<Rightarrow>
          map_assign da results outer
            (append_go (case found of None \<Rightarrow> None | Some bucket \<Rightarrow> bucket) inner))"

fun GroupJoin_inner ::
  "'a dynamics \<Rightarrow> 'b dynamics \<Rightarrow> 'k dynamics \<Rightarrow> ('b iface \<Rightarrow> 'k iface) \<Rightarrow> 'a iface \<Rightarrow>
     'k iface \<Rightarrow> 'b iface list \<Rightarrow>
     ('b iface \<times> 'k iface) list \<times> ('a iface \<times> 'b iface slice) list \<Rightarrow>
     (('b iface \<times> 'k iface) list \<times> ('a iface \<times> 'b iface slice) list) run" where
  "GroupJoin_inner da db dk innerKeySelector outer outerKey [] st = Return st"
| "GroupJoin_inner da db dk innerKeySelector outer outerKey (inner # rest)
       (innerKeyLookup, results) =
     (case memo_key db innerKeySelector innerKeyLookup inner of
        Panic \<Rightarrow> Panic
      | Return (innerKey, innerKeyLookup') \<Rightarrow>
          (case equal_iface dk innerKey outerKey of
             Panic \<Rightarrow> Panic
           | Return True \<Rightarrow>
               (case add_to_bucket da results outer inner of
                  Panic \<Rightarrow> Panic
                | Return results' \<Rightarrow>
                    GroupJoin_inner da db dk innerKeySelector outer outerKey rest
                      (innerKeyLookup', results'))
           | Return False \<Rightarrow>
               GroupJoin_inner da db dk innerKeySelector outer outerKey rest
                 (innerKeyLookup', results)))"

fun GroupJoin_outer ::
  "'a dynamics \<Rightarrow> 'b dynamics \<Rightarrow> 'k dynamics \<Rightarrow> ('a iface \<Rightarrow> 'k iface) \<Rightarrow>
     ('b iface \<Rightarrow> 'k iface) \<Rightarrow> 'b iface list \<Rightarrow> 'a iface list \<Rightarrow>
     ('b iface \<times> 'k iface) list \<times> ('a iface \<times> 'b iface slice) list \<Rightarrow>
     (('b iface \<times> 'k iface) list \<times> ('a iface \<times> 'b iface slice) list) run" where
  "GroupJoin_outer da db dk outerKeySelector innerKeySelector inners [] st = Return st"
| "GroupJoin_outer da db dk outerKeySelector innerKeySelector inners (outer # rest)
       (innerKeyLookup, results) =
     (let outerKey = outerKeySelector outer;
          bucket = Some []
      in case map_assign da results outer bucket of
           Panic \<Rightarrow> Panic
         | Return results1 \<Rightarrow>
             (case GroupJoin_inner da db dk innerKeySelector outer outerKey inners
                     (innerKeyLookup, results1) of
                Panic \<Rightarrow> Panic
              | Return st \<Rightarrow>
                  GroupJoin_outer da db dk outerKeySelector innerKeySelector inners rest st))"

definition GroupJoin ::
  "'a dynamics \<Rightarrow> 'b dynamics \<Rightarrow> 'k dynamics \<Rightarrow>
     (('a iface \<times> 'b iface slice) list \<Rightarrow> ('a iface \<times> 'b iface slice) list) \<Rightarrow> 'a queryable \<Rightarrow>
     'b iface slice \<Rightarrow> ('a iface \<Rightarrow> 'k iface) option \<Rightarrow> ('b iface \<Rightarrow> 'k iface) option \<Rightarrow>
     ('a iface \<Rightarrow> 'b iface slice \<Rightarrow> 'c iface) option \<Rightarrow> 'c queryable run" where
  "GroupJoin da db dk ord q innerCollection outerKeySelector innerKeySelector resultSelector =
     (if err q \<noteq> None then Return (zero_q\<lparr>err := err q\<rparr>)
      else case innerCollection of
        None \<Rightarrow> Return (zero_q\<lparr>err := Some ErrNilInput\<rparr>)
      | Some inners \<Rightarrow>
          (case (outerKeySelector, innerKeySelector, resultSelector) of
             (Some oks, Some iks, Some rs) \<Rightarrow>
               (case GroupJoin_outer da db dk oks iks inners (elems (values q)) ([], []) of
                  Panic \<Rightarrow> Panic
                | Return (innerKeyLookup, results) \<Rightarrow>
                    (case fill (make_slice (length results)) 0
                            (map (\<lambda>(k, v). rs k v) (ord results)) of
                       Panic \<Rightarrow> Panic
                     | Return res \<Rightarrow> Return (zero_q\<lparr>values := Some res\<rparr>)))
           | _ \<Rightarrow> Return (zero_q\<lparr>err := Some ErrNilFunc\<rparr>)))"

text \<open>The invariant of \<^verbatim>\<open>innerKeyLookup\<close>: it holds keys that the selector computed.\<close>

definition memo_ok :: "('b \<Rightarrow> 'k) \<Rightarrow> ('b \<times> 'k) list \<Rightarrow> bool" where
  "memo_ok sel lk \<longleftrightarrow> (\<forall>x k. map_of lk x = Some k \<longrightarrow> k = sel x)"

text \<open>Selectors for an example: the outer key is the number, the inner key its tens.\<close>

definition ex_oks :: "nat iface \<Rightarrow> nat iface" where
  "ex_oks v = (case v of NilValue \<Rightarrow> NilValue | Val n \<Rightarrow> Val n)"

definition ex_iks :: "nat iface \<Rightarrow> nat iface" where
  "ex_iks v = (case v of NilValue \<Rightarrow> NilValue | Val n \<Rightarrow> Val (n div 10))"

definition ex_rs :: "nat iface \<Rightarrow> nat iface slice \<Rightarrow> (nat iface \<times> nat iface slice) iface" where
  "ex_rs outer inners = Val (outer, inners)"

text \<open>A constant key selector and a pairing result selector on the example values.\<close>

definition ex_key :: "ex_value iface \<Rightarrow> ex_value iface" where
  "ex_key v = Val (ExInt 0)"

definition ex_pair ::
  "ex_value iface \<Rightarrow> ex_value iface slice \<Rightarrow> (ex_value iface \<times> ex_value iface slice) iface" where
  "ex_pair outer inners = Val (outer, inners)"

subsection \<open>Range\<close>

lemma sint_lt_max:
  fixes i :: go_int
  shows "sint i \<le> 9223372036854775807"
  using sint_lt [of i] by simp

lemma sint_succ:
  fixes i :: go_int
  assumes "sint i < 9223372036854775807"
  shows "sint (i + 1) = sint i + 1"
proof -
  have lo: "- (2 ^ 63) \<le> sint i" using sint_ge [of i] by simp
  have "sint (i + 1) = signed_take_bit 63 (sint i + 1)"
    by (simp add: sint_word_ariths)
  also have "\<dots> = sint i + 1"
    using lo assms by (intro signed_take_bit_int_eq_self) simp_all
  finally show ?thesis .
qed

lemma sint_succ_below:
  fixes i cnt :: go_int
  assumes "sint i < sint cnt"
  shows "sint (i + 1) = sint i + 1"
  using assms sint_lt_max [of cnt] by (intro sint_succ) simp

text \<open>\<^verbatim>\<open>for i := 0; i < count; i++ { q.values[i] = start + i }\<close>, on machine integers.\<close>

function Range_loop ::
  "go_int \<Rightarrow> go_int \<Rightarrow> go_int \<Rightarrow> go_int iface list \<Rightarrow> go_int iface list run" where
  "Range_loop start cnt i vs =
     (if sint i < sint cnt then
        (case assign vs (sint i) (Val (start + i)) of
           Panic \<Rightarrow> Panic
         | Return vs' \<Rightarrow> Range_loop start cnt (i + 1) vs')
      else Return vs)"
  by pat_completeness auto
termination
  by (relation "measure (\<lambda>(start, cnt, i, vs). nat (sint cnt - sint i))")
     (auto simp: sint_succ_below)

declare Range_loop.simps [simp del]

definition Range_go :: "nat \<Rightarrow> go_int \<Rightarrow> go_int \<Rightarrow> go_int queryable run" where
  "Range_go max_len start cnt =
     (if sint cnt < 0 then Return (zero_q\<lparr>err := Some ErrNegativeParam\<rparr>)
      else case make_checked max_len (sint cnt) of
             Panic \<Rightarrow> Panic
           | Return made \<Rightarrow>
               (case Range_loop start cnt 0 made of
                  Panic \<Rightarrow> Panic
                | Return vs \<Rightarrow> Return (zero_q\<lparr>values := Some vs\<rparr>)))"

subsection \<open>Sum and Average\<close>

text \<open>
  The dynamic types that \<^verbatim>\<open>sum_\<close> tells apart, and three that stand for every other
  type. The float types are type parameters: \<open>'f\<close> for \<^verbatim>\<open>float64\<close>, \<open>'g\<close> for
  \<^verbatim>\<open>float32\<close>.
\<close>

datatype ('f, 'g) dyn =
    DInt go_int
  | DUint "64 word"
  | DFloat64 'f
  | DInt32 "32 word"
  | DInt64 "64 word"
  | DFloat32 'g
  | DInt8 "8 word"
  | DInt16 "16 word"
  | DUint64 "64 word"
  | DUint32 "32 word"
  | DUint16 "16 word"
  | DUint8 "8 word"
  | DString string
  | DBool bool
  | DOther string

text \<open>
  The \<^verbatim>\<open>float64\<close> operations that the source uses, as parameters: \<^verbatim>\<open>+\<close>, \<^verbatim>\<open>/\<close>, the
  conversion \<^verbatim>\<open>float64(f)\<close> of an integer and of a \<^verbatim>\<open>float32\<close>. The zero value of the
  named result \<^verbatim>\<open>sum\<close> is \<open>f_of_int fa 0\<close>.
\<close>

record ('f, 'g) float64_arith =
  f_add :: "'f \<Rightarrow> 'f \<Rightarrow> 'f"
  f_div :: "'f \<Rightarrow> 'f \<Rightarrow> 'f"
  f_of_int :: "int \<Rightarrow> 'f"
  f_of_float32 :: "'g \<Rightarrow> 'f"

text \<open>The chain of type assertions of \<^verbatim>\<open>sum_\<close>, in its order.\<close>

fun to_float64 :: "('f, 'g) float64_arith \<Rightarrow> ('f, 'g) dyn iface \<Rightarrow> 'f option" where
  "to_float64 fa (Val (DInt f)) = Some (f_of_int fa (sint f))"
| "to_float64 fa (Val (DUint f)) = Some (f_of_int fa (uint f))"
| "to_float64 fa (Val (DFloat64 f)) = Some f"
| "to_float64 fa (Val (DInt32 f)) = Some (f_of_int fa (sint f))"
| "to_float64 fa (Val (DInt64 f)) = Some (f_of_int fa (sint f))"
| "to_float64 fa (Val (DFloat32 f)) = Some (f_of_float32 fa f)"
| "to_float64 fa (Val (DInt8 f)) = Some (f_of_int fa (sint f))"
| "to_float64 fa (Val (DInt16 f)) = Some (f_of_int fa (sint f))"
| "to_float64 fa (Val (DUint64 f)) = Some (f_of_int fa (uint f))"
| "to_float64 fa (Val (DUint32 f)) = Some (f_of_int fa (uint f))"
| "to_float64 fa (Val (DUint16 f)) = Some (f_of_int fa (uint f))"
| "to_float64 fa (Val (DUint8 f)) = Some (f_of_int fa (uint f))"
| "to_float64 fa _ = None"

fun sum_loop ::
  "('f, 'g) float64_arith \<Rightarrow> ('f, 'g) dyn iface list \<Rightarrow> 'f \<Rightarrow> 'f \<times> error option" where
  "sum_loop fa [] acc = (acc, None)"
| "sum_loop fa (v # rest) acc =
     (case to_float64 fa v of
        Some f \<Rightarrow> sum_loop fa rest (f_add fa acc f)
      | None \<Rightarrow> (acc, Some ErrNan))"

definition sum_go ::
  "('f, 'g) float64_arith \<Rightarrow> ('f, 'g) dyn iface slice \<Rightarrow> 'f \<times> error option" where
  "sum_go fa input = sum_loop fa (elems input) (f_of_int fa 0)"

definition Sum_go ::
  "('f, 'g) float64_arith \<Rightarrow> ('f, 'g) dyn queryable \<Rightarrow> 'f \<times> error option" where
  "Sum_go fa q = (if err q \<noteq> None then (f_of_int fa 0, err q) else sum_go fa (values q))"

definition Average ::
  "('f, 'g) float64_arith \<Rightarrow> ('f, 'g) dyn queryable \<Rightarrow> 'f \<times> error option" where
  "Average fa q =
     (if err q \<noteq> None then (f_of_int fa 0, err q)
      else if len (values q) = 0 then (f_of_int fa 0, Some ErrEmptySequence)
      else case sum_go fa (values q) of
             (acc, Some e) \<Rightarrow> (f_of_int fa 0, Some e)
           | (acc, None) \<Rightarrow> (f_div fa acc (f_of_int fa (len (values q))), None))"

text \<open>
  The supported numeric representations: the twelve integer and float types, and nothing
  else (not the nil interface).
\<close>

fun numeric :: "('f, 'g) dyn iface \<Rightarrow> bool" where
  "numeric NilValue = False"
| "numeric (Val (DString s)) = False"
| "numeric (Val (DBool b)) = False"
| "numeric (Val (DOther s)) = False"
| "numeric (Val v) = True"

text \<open>
  Exact arithmetic on the reals, with which \<^verbatim>\<open>float64\<close> arithmetic agrees wherever every
  operand and result is representable (as for \<open>1\<close>, \<open>2.5\<close>, \<open>3\<close>, \<open>3.5\<close> and \<open>6.5\<close>).
\<close>

definition exact_arith :: "(real, real) float64_arith" where
  "exact_arith = \<lparr>f_add = (+), f_div = (/), f_of_int = of_int, f_of_float32 = id\<rparr>"

section \<open>Fault propagation\<close>

text \<open>
  Every modelled stage-producing operation returns the incoming fault before it looks at
  its other arguments; \<open>DistinctBy\<close> does so only when its callable is not nil.
\<close>

lemma faulted_stage_operations:
  assumes "err q = Some e"
  shows "Where q f = zero_q\<lparr>err := Some e\<rparr>"
    and "distinct_go d ord q g = Return (zero_q\<lparr>err := Some e\<rparr>)"
    and "Distinct d ord q = Return (zero_q\<lparr>err := Some e\<rparr>)"
    and "DistinctBy d ord q (Some g') = Return (zero_q\<lparr>err := Some e\<rparr>)"
    and "Except d ord q input = Return (zero_q\<lparr>err := Some e\<rparr>)"
    and "Reverse q = Return (zero_q\<lparr>err := Some e\<rparr>)"
    and "Take spare q n = Return (zero_q\<lparr>err := Some e\<rparr>)"
    and "Skip q n = Return (zero_q\<lparr>err := Some e\<rparr>)"
    and "GroupJoin da db dk ord' q inner oks iks rs = Return (zero_q\<lparr>err := Some e\<rparr>)"
  using assms
  by (simp_all add: Where_def distinct_go_def Distinct_def DistinctBy_def Except_def
        Reverse_def Take_def Skip_def GroupJoin_def)

text \<open>
  C1. An operation on a pipeline that already carries a fault should return that fault,
  also when its own callable is nil. \<open>DistinctBy\<close> tests its callable before the
  incoming fault: on the pipeline \<open>From(nil)\<close>, which carries the nil-input fault, a nil
  callable gives the nil-callable fault instead.
\<close>

theorem DistinctBy_nil_on_faulted:
  "DistinctBy d ord (From None) None = Return (zero_q\<lparr>err := Some ErrNilFunc\<rparr>)
   \<and> err (From None :: 'a queryable) = Some ErrNilInput
   \<and> Where (From None :: 'a queryable) None = zero_q\<lparr>err := Some ErrNilInput\<rparr>"
  by (simp add: DistinctBy_def From_def Where_def)

section \<open>All\<close>

lemma All_loop_prefix:
  "\<forall>y\<in>set xs. snd (f y) = None \<Longrightarrow> snd (f x) = Some e \<Longrightarrow>
   All_loop f (xs @ x # ys) a = (a \<and> (\<forall>y\<in>set xs. fst (f y)), Some e)"
  by (induction xs arbitrary: a) (auto split: prod.splits option.splits)

text \<open>
  C10. \<open>All\<close> does not stop at an element on which the predicate is false: when the
  predicate returns an error on some element \<open>x\<close> and no error on the elements \<open>xs\<close>
  before it, \<open>All\<close> reports that error, whatever the predicate answered on \<open>xs\<close> (the
  boolean returned with it is the conjunction of the answers on \<open>xs\<close>).
\<close>

theorem All_reports_later_error:
  assumes "err q = None"
    and "elems (values q) = xs @ x # ys"
    and "\<forall>y\<in>set xs. snd (f y) = None"
    and "snd (f x) = Some e"
  shows "All_go q (Some f) = (\<forall>y\<in>set xs. fst (f y), Some e)"
  using assms by (simp add: All_go_def All_loop_prefix)

theorem All_reports_later_error_witness:
  "All_go \<lparr>values = Some [Val (0::nat), Val 1], err = None, less_q = None\<rparr>
     (Some (\<lambda>v. if v = Val 0 then (False, None) else (False, Some (ErrOther ''boom''))))
   = (False, Some (ErrOther ''boom''))"
  using All_reports_later_error [of
      "\<lparr>values = Some [Val (0::nat), Val 1], err = None, less_q = None\<rparr>"
      "[Val 0]" "Val 1" "[]"
      "\<lambda>v. if v = Val 0 then (False, None) else (False, Some (ErrOther ''boom''))"
      "ErrOther ''boom''"]
  by (simp add: elems_def)

section \<open>Element access\<close>

lemma sint_max_word:
  fixes i :: go_int
  assumes "sint i = 9223372036854775807"
  shows "i = 0x7FFFFFFFFFFFFFFF"
proof -
  have "i = word_of_int (sint i)" by simp
  then show ?thesis unfolding assms by simp
qed

lemma ElementAt_cases:
  assumes "err q = None"
  shows "sint i < 0 \<Longrightarrow> ElementAt q i = Return (NilValue, Some ErrNegativeParam)"
    and "0 \<le> sint i \<Longrightarrow> sint i < 9223372036854775807 \<Longrightarrow> len (values q) \<le> sint i \<Longrightarrow>
           ElementAt q i = Return (NilValue, Some ErrNoElement)"
    and "0 \<le> sint i \<Longrightarrow> sint i < len (values q) \<Longrightarrow>
           ElementAt q i = Return (elems (values q) ! nat (sint i), None)"
proof -
  show "sint i < 0 \<Longrightarrow> ElementAt q i = Return (NilValue, Some ErrNegativeParam)"
    using assms by (simp add: ElementAt_def)
  show "0 \<le> sint i \<Longrightarrow> sint i < 9223372036854775807 \<Longrightarrow> len (values q) \<le> sint i \<Longrightarrow>
           ElementAt q i = Return (NilValue, Some ErrNoElement)"
    using assms by (simp add: ElementAt_def sint_succ)
  show "0 \<le> sint i \<Longrightarrow> sint i < len (values q) \<Longrightarrow>
           ElementAt q i = Return (elems (values q) ! nat (sint i), None)"
    using assms sint_lt_max [of i]
    by (cases "sint i < 9223372036854775807")
       (auto simp: ElementAt_def sint_succ index_def len_def dest: sint_max_word)
qed

text \<open>
  At the largest \<^verbatim>\<open>int\<close> the test \<^verbatim>\<open>len(q.values) < i+1\<close> compares with the smallest
  \<^verbatim>\<open>int\<close>, so every slice (none is longer than the largest \<^verbatim>\<open>int\<close>) is indexed out of
  range.
\<close>

lemma ElementAt_max:
  assumes "err q = None" and "sint i = 9223372036854775807"
    and "len (values q) \<le> 9223372036854775807"
  shows "ElementAt q i = Panic"
  using assms sint_max_word [OF assms(2)]
  by (simp add: ElementAt_def len_def index_def)

lemma ElementAtOrNil_cases:
  assumes "err q = None"
  shows "sint i < 0 \<Longrightarrow> ElementAtOrNil q i = Return (NilValue, Some ErrNegativeParam)"
    and "0 \<le> sint i \<Longrightarrow> len (values q) \<le> sint i \<Longrightarrow>
           ElementAtOrNil q i = Return (NilValue, None)"
    and "0 \<le> sint i \<Longrightarrow> sint i < len (values q) \<Longrightarrow>
           ElementAtOrNil q i = Return (elems (values q) ! nat (sint i), None)"
  using assms by (auto simp: ElementAtOrNil_def index_def len_def)

lemma First_Last_cases:
  assumes "err q = None"
  shows "elems (values q) = [] \<Longrightarrow> First q = Return (NilValue, Some ErrNoElement)"
    and "elems (values q) = [] \<Longrightarrow> Last q = Return (NilValue, Some ErrNoElement)"
    and "elems (values q) = [] \<Longrightarrow> FirstOrNil q = Return (NilValue, None)"
    and "elems (values q) = [] \<Longrightarrow> LastOrNil q = Return (NilValue, None)"
    and "elems (values q) \<noteq> [] \<Longrightarrow> First q = Return (hd (elems (values q)), None)"
    and "elems (values q) \<noteq> [] \<Longrightarrow> FirstOrNil q = Return (hd (elems (values q)), None)"
    and "elems (values q) \<noteq> [] \<Longrightarrow> Last q = Return (last (elems (values q)), None)"
    and "elems (values q) \<noteq> [] \<Longrightarrow> LastOrNil q = Return (last (elems (values q)), None)"
  using assms
  by (auto simp: First_def Last_def FirstOrNil_def LastOrNil_def index_def len_def
        hd_conv_nth last_conv_nth nat_diff_distrib')

text \<open>
  C4. \<open>First\<close>, \<open>Last\<close> and \<open>ElementAt\<close> are to report the no-element fault on an empty
  sequence or an index out of range, where the \<open>OrNil\<close> variants return nil without a
  fault. \<open>ElementAt\<close> does so for every index below the largest \<^verbatim>\<open>int\<close>
  (\<open>ElementAt_cases\<close>); at the largest \<^verbatim>\<open>int\<close> the sum \<open>i + 1\<close> wraps around and the
  call panics on the empty pipeline, where \<open>ElementAtOrNil\<close>, which compares
  \<^verbatim>\<open>len(q.values) > i\<close>, returns nil.
\<close>

theorem ElementAt_max_int_panics:
  "ElementAt \<lparr>values = Some [], err = None, less_q = None\<rparr> 0x7FFFFFFFFFFFFFFF = Panic
   \<and> ElementAtOrNil \<lparr>values = Some [], err = None, less_q = None\<rparr> 0x7FFFFFFFFFFFFFFF
       = Return (NilValue, None)"
  by (simp add: ElementAt_def ElementAtOrNil_def len_def elems_def index_def)

section \<open>Reverse\<close>

lemma Reverse_loop_rev:
  "- 1 \<le> i \<Longrightarrow> 0 \<le> j \<Longrightarrow> i + 1 + j = int (length src) \<Longrightarrow> length dst = length src \<Longrightarrow>
   Reverse_loop src i j dst = Return (take (nat j) dst @ rev (take (nat (i + 1)) src))"
proof (induction src i j dst rule: Reverse_loop.induct)
  case (1 src i j dst)
  show ?case
  proof (cases "i \<ge> 0")
    case False
    with "1.prems" have "i = - 1" by simp
    with "1.prems" show ?thesis by (subst Reverse_loop.simps) simp
  next
    case True
    let ?x = "src ! nat i"
    let ?dst' = "dst[nat j := ?x]"
    have ix: "index src i = Return ?x"
      using True "1.prems" by (simp add: index_def)
    have as: "assign dst j ?x = Return ?dst'"
      using True "1.prems" by (simp add: assign_def)
    have IH: "Reverse_loop src (i - 1) (j + 1) ?dst'
              = Return (take (nat (j + 1)) ?dst' @ rev (take (nat (i - 1 + 1)) src))"
      using "1.IH" [OF True ix as] "1.prems" True by simp
    have nj: "nat (j + 1) = Suc (nat j)" using "1.prems" by simp
    have ni: "nat (i + 1) = Suc (nat i)" using True by simp
    have jl: "nat j < length dst" using "1.prems" True by simp
    have il: "nat i < length src" using "1.prems" True by simp
    have "take (Suc (nat j)) ?dst' = take (nat j) dst @ [?x]"
      using jl by (simp add: take_Suc_conv_app_nth)
    moreover have "rev (take (Suc (nat i)) src) = ?x # rev (take (nat i) src)"
      using il by (simp add: take_Suc_conv_app_nth)
    ultimately show ?thesis
      using True ix as IH nj ni by (subst Reverse_loop.simps) simp
  qed
qed

lemma Reverse_loop_all:
  fixes xs :: "'a iface list"
  shows "Reverse_loop xs (int (length xs) - 1) 0 (make_slice (length xs)) = Return (rev xs)"
  using Reverse_loop_rev [of "int (length xs) - 1" 0 xs "make_slice (length xs)"]
  by (simp add: make_slice_def)

lemma Reverse_eq:
  "err q = None \<Longrightarrow> Reverse q = Return (zero_q\<lparr>values := Some (rev (elems (values q)))\<rparr>)"
  by (simp add: Reverse_def len_def Reverse_loop_all)

text \<open>
  C9. On an unfaulted pipeline \<open>Reverse\<close> returns without a fault the source elements in
  reverse order, and \<open>Reverse\<close> of that result returns the source elements in their
  original order.
\<close>

theorem Reverse_involution:
  assumes "err q = None"
  shows "\<exists>r. Reverse q = Return r \<and> err r = None \<and> values r = Some (rev (elems (values q)))
           \<and> (\<exists>r'. Reverse r = Return r' \<and> err r' = None
                 \<and> values r' = Some (elems (values q)))"
proof -
  let ?r = "zero_q\<lparr>values := Some (rev (elems (values q)))\<rparr> :: 'a queryable"
  have 1: "Reverse q = Return ?r" using assms by (rule Reverse_eq)
  have e: "err ?r = None" by (simp add: zero_q_def)
  have 2: "Reverse ?r = Return (zero_q\<lparr>values := Some (elems (values q))\<rparr>)"
    using Reverse_eq [OF e] by (simp add: elems_def)
  show ?thesis using 1 2 by (simp add: zero_q_def)
qed

theorem Reverse_involution_witness:
  "\<exists>r. Reverse \<lparr>values = Some [Val (1::nat), Val 2, Val 3], err = None, less_q = None\<rparr>
         = Return r
       \<and> err r = None \<and> values r = Some [Val 3, Val 2, Val 1]
       \<and> (\<exists>r'. Reverse r = Return r' \<and> err r' = None
             \<and> values r' = Some [Val 1, Val 2, Val 3])"
  using Reverse_involution
    [of "\<lparr>values = Some [Val (1::nat), Val 2, Val 3], err = None, less_q = None\<rparr>"]
  by (simp add: elems_def)

section \<open>Sum and Average\<close>

lemma to_float64_numeric: "to_float64 fa v = None \<longleftrightarrow> \<not> numeric v"
  by (induction fa v rule: to_float64.induct) simp_all

lemma sum_loop_err:
  "snd (sum_loop fa vs s) = (if \<forall>v\<in>set vs. numeric v then None else Some ErrNan)"
proof (induction vs arbitrary: s)
  case Nil
  show ?case by simp
next
  case (Cons v vs)
  show ?case
  proof (cases "to_float64 fa v")
    case None
    then have "\<not> numeric v" by (simp add: to_float64_numeric)
    with None show ?thesis by simp
  next
    case (Some f)
    then have "numeric v" using to_float64_numeric [of fa v] by simp
    with Some Cons.IH show ?thesis by simp
  qed
qed

text \<open>
  C8. On an unfaulted pipeline \<open>Sum\<close> and \<open>Average\<close> report the non-numeric fault exactly
  when some element is not of a supported numeric representation; \<open>Sum\<close> reports no
  other fault; \<open>Average\<close> reports the empty-sequence fault exactly on the empty sequence;
  and when \<open>Average\<close> succeeds its value is the value of \<open>Sum\<close> divided by the converted
  element count. This holds for every \<^verbatim>\<open>float64\<close> arithmetic \<open>fa\<close>. The witness is the
  sum of \<open>[1, 2.5, int32(3)]\<close>, which is \<open>6.5\<close>.
\<close>

theorem Sum_Average_faults:
  assumes "err q = None"
  shows "(snd (Sum_go fa q) = Some ErrNan \<longleftrightarrow> (\<exists>v\<in>set (elems (values q)). \<not> numeric v))
       \<and> (snd (Sum_go fa q) = None \<longleftrightarrow> (\<forall>v\<in>set (elems (values q)). numeric v))
       \<and> (snd (Average fa q) = Some ErrNan \<longleftrightarrow> (\<exists>v\<in>set (elems (values q)). \<not> numeric v))
       \<and> (snd (Average fa q) = Some ErrEmptySequence \<longleftrightarrow> elems (values q) = [])
       \<and> (snd (Average fa q) = None \<longleftrightarrow>
            elems (values q) \<noteq> [] \<and> (\<forall>v\<in>set (elems (values q)). numeric v))
       \<and> (snd (Average fa q) = None \<longrightarrow>
            fst (Average fa q)
            = f_div fa (fst (Sum_go fa q)) (f_of_int fa (int (length (elems (values q))))))"
proof -
  let ?vs = "elems (values q)"
  have s: "snd (sum_go fa (values q)) = (if \<forall>v\<in>set ?vs. numeric v then None else Some ErrNan)"
    by (simp add: sum_go_def sum_loop_err)
  show ?thesis
  proof (cases "?vs = []")
    case True
    then show ?thesis using assms s by (simp add: Sum_go_def Average_def len_def)
  next
    case False
    then show ?thesis using assms s
      by (cases "sum_go fa (values q)") (auto simp: Sum_go_def Average_def len_def split: if_splits)
  qed
qed

theorem Sum_Average_faults_witness:
  "Sum_go exact_arith
     \<lparr>values = Some [Val (DInt 1), Val (DFloat64 (5 / 2)), Val (DInt32 3)], err = None, less_q = None\<rparr>
     = (13 / 2, None)
   \<and> Average exact_arith
     \<lparr>values = Some [Val (DInt 1), Val (DFloat64 (5 / 2)), Val (DInt32 3)], err = None, less_q = None\<rparr>
     = (13 / 2 / 3, None)
   \<and> snd (Sum_go exact_arith \<lparr>values = Some [Val (DString ''a'')], err = None, less_q = None\<rparr>)
     = Some ErrNan
   \<and> snd (Average exact_arith \<lparr>values = Some [], err = None, less_q = None\<rparr>)
     = Some ErrEmptySequence"
  using Sum_Average_faults [of
     "\<lparr>values = Some [Val (DInt 1), Val (DFloat64 (5 / 2)), Val (DInt32 3)], err = None, less_q = None\<rparr>"
     exact_arith]
  by (simp add: Sum_go_def Average_def sum_go_def elems_def len_def exact_arith_def)

section \<open>Filling a slice from a map\<close>

text \<open>The fill loop after \<^verbatim>\<open>make\<close> never indexes out of range.\<close>

lemma fill_eq:
  "0 \<le> i \<Longrightarrow> int (length res) = i + int (length ks) \<Longrightarrow>
   fill res i ks = Return (take (nat i) res @ ks)"
proof (induction ks arbitrary: res i)
  case Nil
  then show ?case by simp
next
  case (Cons k ks)
  have l: "nat i < length res" using Cons.prems by simp
  have a: "assign res i k = Return (res[nat i := k])"
    using Cons.prems by (simp add: assign_def)
  have "fill (res[nat i := k]) (i + 1) ks = Return (take (nat (i + 1)) (res[nat i := k]) @ ks)"
    using Cons.prems by (intro Cons.IH) simp_all
  moreover have "nat (i + 1) = Suc (nat i)" using Cons.prems by simp
  moreover have "take (Suc (nat i)) (res[nat i := k]) = take (nat i) res @ [k]"
    using l by (simp add: take_Suc_conv_app_nth)
  ultimately show ?case using a by simp
qed

lemma fill_make_slice: "length ks = n \<Longrightarrow> fill (make_slice n) 0 ks = Return ks"
  using fill_eq [of 0 "make_slice n" ks] by (simp add: make_slice_def)

lemma iteration_order_keys:
  assumes "iteration_order ord"
  shows "length (ord m) = length m" and "set (map f (ord m)) = set (map f m)"
    and "distinct (map f (ord m)) = distinct (map f m)"
    and "mset (map f (ord m)) = mset (map f m)"
proof -
  have m: "mset (ord m) = mset m" using assms by (simp add: iteration_order_def)
  show "length (ord m) = length m" using m by (rule mset_eq_length)
  show 4: "mset (map f (ord m)) = mset (map f m)" using m by (metis mset_map)
  show "set (map f (ord m)) = set (map f m)" using 4 by (rule mset_eq_setD)
  show "distinct (map f (ord m)) = distinct (map f m)" using 4 by (rule mset_eq_imp_distinct_iff)
qed

section \<open>DistinctBy\<close>

lemma distinct_inner_exclude_later:
  "0 \<le> i \<Longrightarrow> i < j \<Longrightarrow> j \<le> int (length vs) \<Longrightarrow> length included = length vs \<Longrightarrow>
   distinct_inner f vs i j included
   = (case exclude_later f (vs ! nat i) (zip (drop (nat j) vs) (drop (nat j) included)) of
        Inl e \<Rightarrow> Return (Inl e)
      | Inr ps \<Rightarrow> Return (Inr (take (nat j) included @ map snd ps)))"
proof (induction f vs i j included rule: distinct_inner.induct)
  case (1 f vs i j included)
  show ?case
  proof (cases "j < int (length vs)")
    case False
    with "1.prems" show ?thesis by (subst distinct_inner.simps) simp
  next
    case True
    let ?x = "vs ! nat i" and ?y = "vs ! nat j"
    let ?n = "nat j"
    have n: "?n < length vs" "?n < length included" "nat (j + 1) = Suc ?n"
      using True "1.prems" by simp_all
    have ix: "index vs i = Return ?x" using True "1.prems" by (simp add: index_def)
    have iy: "index vs j = Return ?y" using True "1.prems" by (simp add: index_def)
    have z: "zip (drop ?n vs) (drop ?n included)
             = (?y, included ! ?n) # zip (drop (Suc ?n) vs) (drop (Suc ?n) included)"
      using n by (simp add: Cons_nth_drop_Suc [symmetric])
    obtain equals oe where fxy: "f ?x ?y = (equals, oe)" by (cases "f ?x ?y")
    show ?thesis
    proof (cases oe)
      case (Some e)
      then show ?thesis
        using True ix iy fxy z by (subst distinct_inner.simps) simp
    next
      case None
      show ?thesis
      proof (cases equals)
        case True
        let ?inc = "included[?n := True]"
        have as: "assign included j True = Return ?inc"
          using \<open>j < int (length vs)\<close> "1.prems" by (simp add: assign_def)
        have IH: "distinct_inner f vs i (j + 1) ?inc
           = (case exclude_later f ?x (zip (drop (Suc ?n) vs) (drop (Suc ?n) ?inc)) of
                Inl e \<Rightarrow> Return (Inl e)
              | Inr ps \<Rightarrow> Return (Inr (take (Suc ?n) ?inc @ map snd ps)))"
          using "1.IH"(1) [OF \<open>j < int (length vs)\<close> ix iy fxy [symmetric] None True as]
            "1.prems" \<open>j < int (length vs)\<close> n(3) by (simp cong: sum.case_cong)
        have t: "take (Suc ?n) ?inc = take ?n included @ [True]"
          using n by (simp add: take_Suc_conv_app_nth)
        have d: "drop (Suc ?n) ?inc = drop (Suc ?n) included" by simp
        show ?thesis
          using \<open>j < int (length vs)\<close> ix iy fxy None True as z
          by (subst distinct_inner.simps) (simp add: IH t d split: sum.splits)
      next
        case False
        have IH: "distinct_inner f vs i (j + 1) included
           = (case exclude_later f ?x (zip (drop (Suc ?n) vs) (drop (Suc ?n) included)) of
                Inl e \<Rightarrow> Return (Inl e)
              | Inr ps \<Rightarrow> Return (Inr (take (Suc ?n) included @ map snd ps)))"
          using "1.IH"(2) [OF \<open>j < int (length vs)\<close> ix iy fxy [symmetric] None False]
            "1.prems" \<open>j < int (length vs)\<close> n(3) by (simp cong: sum.case_cong)
        have t: "take (Suc ?n) included = take ?n included @ [included ! ?n]"
          using n by (simp add: take_Suc_conv_app_nth)
        show ?thesis
          using \<open>j < int (length vs)\<close> ix iy fxy None False z
          by (subst distinct_inner.simps) (simp add: IH t split: sum.splits)
      qed
    qed
  qed
qed


lemma distinct_outer_kept:
  "0 \<le> i \<Longrightarrow> i \<le> int (length vs) \<Longrightarrow> length included = length vs \<Longrightarrow>
   distinct_outer f vs i included results
   = (case kept_in_order f (zip (drop (nat i) vs) (drop (nat i) included)) of
        Inl e \<Rightarrow> Return (Inl e)
      | Inr kept \<Rightarrow> Return (Inr (results @ kept)))"
proof (induction f vs i included results rule: distinct_outer.induct)
  case (1 f vs i included results)
  show ?case
  proof (cases "i < int (length vs)")
    case False
    with "1.prems" show ?thesis by (subst distinct_outer.simps) simp
  next
    case True
    let ?n = "nat i"
    let ?x = "vs ! ?n"
    let ?rest = "zip (drop (Suc ?n) vs) (drop (Suc ?n) included)"
    have n: "?n < length vs" "?n < length included" "nat (i + 1) = Suc ?n"
      using True "1.prems" by simp_all
    have ii: "index included i = Return (included ! ?n)"
      using True "1.prems" by (simp add: index_def)
    have ix: "index vs i = Return ?x" using True "1.prems" by (simp add: index_def)
    have z: "zip (drop ?n vs) (drop ?n included) = (?x, included ! ?n) # ?rest"
      using n by (simp add: Cons_nth_drop_Suc [symmetric])
    show ?thesis
    proof (cases "included ! ?n")
      case skip: True
      have IH: "distinct_outer f vs (i + 1) included results
           = (case kept_in_order f ?rest of
                Inl e \<Rightarrow> Return (Inl e)
              | Inr kept \<Rightarrow> Return (Inr (results @ kept)))"
        using "1.IH"(1) [OF True ii skip] "1.prems" True n(3) by simp
      show ?thesis
        using True ii skip z by (subst distinct_outer.simps) (simp add: IH)
    next
      case keep: False
      have inner: "distinct_inner f vs i (i + 1) included
           = (case exclude_later f ?x ?rest of
                Inl e \<Rightarrow> Return (Inl e)
              | Inr ps \<Rightarrow> Return (Inr (take (Suc ?n) included @ map snd ps)))"
        using distinct_inner_exclude_later [of i "i + 1" vs included f] "1.prems" True n(3)
        by (simp cong: sum.case_cong)
      show ?thesis
      proof (cases "exclude_later f ?x ?rest")
        case (Inl e)
        then show ?thesis
          using True ii keep z inner by (subst distinct_outer.simps) simp
      next
        case (Inr ps)
        let ?inc = "take (Suc ?n) included @ map snd ps"
        have in2: "distinct_inner f vs i (i + 1) included = Return (Inr ?inc)"
          using inner Inr by simp
        have fs: "map fst ps = drop (Suc ?n) vs"
          using exclude_later_fst [OF Inr] "1.prems" by simp
        have lp: "length ps = length vs - Suc ?n"
          using arg_cong [OF fs, of length] by simp
        have li: "length ?inc = length vs" using lp n "1.prems" by simp
        have dr: "drop (Suc ?n) ?inc = map snd ps" using n by simp
        have zp: "zip (drop (Suc ?n) vs) (drop (Suc ?n) ?inc) = ps"
          unfolding dr fs [symmetric] by (rule zip_map_fst_snd)
        have IH: "distinct_outer f vs (i + 1) ?inc (results @ [?x])
           = (case kept_in_order f ps of
                Inl e \<Rightarrow> Return (Inl e)
              | Inr kept \<Rightarrow> Return (Inr ((results @ [?x]) @ kept)))"
          using "1.IH"(2) [OF True ii keep in2 refl ix] "1.prems" True n(3) li zp by simp
        show ?thesis
          using True ii keep z in2 ix Inr
          by (subst distinct_outer.simps) (simp add: IH split: sum.splits)
      qed
    qed
  qed
qed

lemma DistinctBy_eq:
  assumes "err q = None"
  shows "DistinctBy d ord q (Some f)
         = Return (case kept_in_order f (map (\<lambda>v. (v, False)) (elems (values q))) of
                     Inl e \<Rightarrow> zero_q\<lparr>err := Some e\<rparr>
                   | Inr kept \<Rightarrow> zero_q\<lparr>values := Some kept\<rparr>)"
proof -
  let ?vs = "elems (values q)"
  have z: "zip ?vs (replicate (length ?vs) False) = map (\<lambda>v. (v, False)) ?vs"
    by (simp add: zip_replicate2)
  have "distinct_outer f ?vs 0 (replicate (length ?vs) False) []
        = (case kept_in_order f (map (\<lambda>v. (v, False)) ?vs) of
             Inl e \<Rightarrow> Return (Inl e)
           | Inr kept \<Rightarrow> Return (Inr kept))"
    using distinct_outer_kept [of 0 ?vs "replicate (length ?vs) False" f "[]"] z
    by (simp cong: sum.case_cong)
  then show ?thesis
    using assms by (simp add: DistinctBy_def distinct_go_def Let_def split: sum.splits)
qed


lemma exclude_later_Inr:
  "exclude_later f x ps = Inr ps' \<Longrightarrow> ps' = map (\<lambda>(y, b). (y, b \<or> fst (f x y))) ps"
  by (induction ps arbitrary: ps') (auto split: prod.splits option.splits sum.splits)

lemma kept_in_order_props:
  "kept_in_order f ps = Inr kept \<Longrightarrow>
     subseq kept (map fst (filter (\<lambda>p. \<not> snd p) ps))
   \<and> (\<forall>p\<in>set ps. \<not> snd p \<longrightarrow> fst p \<in> set kept \<or> (\<exists>k\<in>set kept. fst (f k (fst p))))
   \<and> sorted_wrt (\<lambda>a b. \<not> fst (f a b)) kept"
proof (induction f ps arbitrary: kept rule: kept_in_order.induct)
  case (1 f)
  then show ?case by simp
next
  case (2 f x rest)
  then show ?case by simp
next
  case (3 f x rest)
  from "3.prems" obtain rest' kept' where
    ex: "exclude_later f x rest = Inr rest'"
    and k': "kept_in_order f rest' = Inr kept'"
    and k: "kept = x # kept'"
    by (auto split: sum.splits)
  have r': "rest' = map (\<lambda>(y, b). (y, b \<or> fst (f x y))) rest"
    using ex by (rule exclude_later_Inr)
  from "3.IH" [OF ex k'] have
    a: "subseq kept' (map fst (filter (\<lambda>p. \<not> snd p) rest'))"
    and c: "\<forall>p\<in>set rest'. \<not> snd p \<longrightarrow> fst p \<in> set kept' \<or> (\<exists>k\<in>set kept'. fst (f k (fst p)))"
    and b: "sorted_wrt (\<lambda>a b. \<not> fst (f a b)) kept'"
    by simp_all
  have flt: "map fst (filter (\<lambda>p. \<not> snd p) rest')
             = filter (\<lambda>y. \<not> fst (f x y)) (map fst (filter (\<lambda>p. \<not> snd p) rest))"
    unfolding r' by (induction rest) auto
  have a1: "subseq (map fst (filter (\<lambda>p. \<not> snd p) rest')) (map fst (filter (\<lambda>p. \<not> snd p) rest))"
    unfolding flt by simp
  have A: "subseq kept (map fst (filter (\<lambda>p. \<not> snd p) ((x, False) # rest)))"
    using subseq_order.order_trans [OF a a1] k by simp
  have "set kept' \<subseteq> set (map fst (filter (\<lambda>p. \<not> snd p) rest'))"
    using a by (auto elim: list_emb_set)
  then have nx: "\<forall>k\<in>set kept'. \<not> fst (f x k)"
    unfolding flt by auto
  have B: "sorted_wrt (\<lambda>a b. \<not> fst (f a b)) kept"
    using b nx k by simp
  have C: "\<forall>p\<in>set ((x, False) # rest).
             \<not> snd p \<longrightarrow> fst p \<in> set kept \<or> (\<exists>k\<in>set kept. fst (f k (fst p)))"
  proof (intro ballI impI)
    fix p assume p: "p \<in> set ((x, False) # rest)" and np: "\<not> snd p"
    obtain v fl where pv: "p = (v, fl)" by (cases p)
    show "fst p \<in> set kept \<or> (\<exists>k\<in>set kept. fst (f k (fst p)))"
    proof (cases "p = (x, False)")
      case True
      then show ?thesis using k by simp
    next
      case False
      with p have pr: "(v, fl) \<in> set rest" by (auto simp: pv)
      show ?thesis
      proof (cases "fst (f x v)")
        case True
        then show ?thesis using k pv by auto
      next
        case False
        have "(v, fl \<or> fst (f x v)) \<in> set rest'"
          unfolding r' using pr by force
        with c False np pv have "v \<in> set kept' \<or> (\<exists>k\<in>set kept'. fst (f k v))"
          by fastforce
        then show ?thesis using k pv by auto
      qed
    qed
  qed
  from A C B show ?case by blast
qed

text \<open>
  C3. On an unfaulted pipeline and a non-nil equivalence predicate, the index loops of
  \<open>DistinctBy\<close> compute the policy \<open>kept_in_order\<close>, started with no element excluded: a
  fault of the predicate is attached to a result without payload, and otherwise the kept
  elements are the payload. That payload is a subsequence of the source (first-occurrence
  order); every source element is kept or was confirmed equivalent to a kept element; and
  no kept element was confirmed equivalent to a later kept one.
\<close>

theorem DistinctBy_keeps_first:
  assumes "err q = None"
  shows "DistinctBy d ord q (Some f)
         = Return (case kept_in_order f (map (\<lambda>v. (v, False)) (elems (values q))) of
                     Inl e \<Rightarrow> zero_q\<lparr>err := Some e\<rparr>
                   | Inr kept \<Rightarrow> zero_q\<lparr>values := Some kept\<rparr>)
       \<and> (\<forall>kept. DistinctBy d ord q (Some f) = Return (zero_q\<lparr>values := Some kept\<rparr>) \<longrightarrow>
             subseq kept (elems (values q))
           \<and> (\<forall>v\<in>set (elems (values q)). v \<in> set kept \<or> (\<exists>k\<in>set kept. fst (f k v)))
           \<and> sorted_wrt (\<lambda>a b. \<not> fst (f a b)) kept)"
proof (intro conjI allI impI)
  let ?ps = "map (\<lambda>v. (v, False)) (elems (values q))"
  show eq: "DistinctBy d ord q (Some f)
         = Return (case kept_in_order f ?ps of
                     Inl e \<Rightarrow> zero_q\<lparr>err := Some e\<rparr>
                   | Inr kept \<Rightarrow> zero_q\<lparr>values := Some kept\<rparr>)"
    using assms by (rule DistinctBy_eq)
  fix kept
  assume "DistinctBy d ord q (Some f) = Return (zero_q\<lparr>values := Some kept\<rparr>)"
  then have k: "kept_in_order f ?ps = Inr kept"
    unfolding eq by (cases "kept_in_order f ?ps") (simp_all add: zero_q_def)
  have f: "map fst (filter (\<lambda>p. \<not> snd p) ?ps) = elems (values q)"
    by (induction "elems (values q)") (simp_all add: comp_def)
  from kept_in_order_props [OF k]
  show "subseq kept (elems (values q))"
    and "\<forall>v\<in>set (elems (values q)). v \<in> set kept \<or> (\<exists>k\<in>set kept. fst (f k v))"
    and "sorted_wrt (\<lambda>a b. \<not> fst (f a b)) kept"
    unfolding f by simp_all
qed

theorem DistinctBy_keeps_first_witness:
  "DistinctBy plain_dynamics rev \<lparr>values = Some [Val 1, Val 2, Val 1, Val 3, Val 2], err = None, less_q = None\<rparr>
     (Some ex_same)
   = Return \<lparr>values = Some [Val 1, Val 2, Val 3], err = None, less_q = None\<rparr>
   \<and> DistinctBy plain_dynamics rev \<lparr>values = Some [Val 1, Val 2, Val 1, Val 3, Val 2], err = None, less_q = None\<rparr>
     (Some ex_faulty)
   = Return \<lparr>values = None, err = Some (ErrOther ''bad''), less_q = None\<rparr>
   \<and> subseq [Val 1, Val 2, Val 3] [Val 1, Val 2, Val 1, Val 3, Val (2::nat)]"
  using DistinctBy_keeps_first [of
      "\<lparr>values = Some [Val 1, Val 2, Val 1, Val 3, Val 2], err = None, less_q = None\<rparr>"
      plain_dynamics rev ex_same]
    DistinctBy_keeps_first [of
      "\<lparr>values = Some [Val 1, Val 2, Val 1, Val 3, Val 2], err = None, less_q = None\<rparr>"
      plain_dynamics rev ex_faulty]
  by (simp add: elems_def ex_same_def ex_faulty_def zero_q_def)

section \<open>Take and Skip\<close>

lemma elems_simps: "elems None = []" "elems (Some xs) = xs"
  by (simp_all add: elems_def)

lemma clamp_range: "0 \<le> clamp s n \<and> clamp s n \<le> len s"
  by (simp add: clamp_def Let_def len_def)

lemma clamp_nonneg: "0 \<le> sint n \<Longrightarrow> clamp s n = min (sint n) (len s)"
  by (simp add: clamp_def Let_def min_def)

lemma slice_to_in_range:
  "0 \<le> n \<Longrightarrow> n \<le> len s \<Longrightarrow>
   slice_to s spare n = Return (map_option (take (nat n)) s)"
  by (cases s) (auto simp: slice_to_def len_def elems_def)

lemma slice_from_in_range:
  "0 \<le> n \<Longrightarrow> n \<le> len s \<Longrightarrow> slice_from s n = Return (map_option (drop (nat n)) s)"
  by (cases s) (auto simp: slice_from_def len_def elems_def)

lemma slice_out_of_range:
  "len s + int (length spare) < n \<Longrightarrow> slice_to s spare n = Panic"
  "len s < n \<Longrightarrow> slice_from s n = Panic"
  "n < 0 \<Longrightarrow> slice_to s spare n = Panic"
  "n < 0 \<Longrightarrow> slice_from s n = Panic"
  by (cases s; auto simp: slice_to_def slice_from_def len_def elems_def)+

text \<open>A negative \<open>n\<close> is clamped to \<open>0\<close>: \<open>Take\<close> yields nothing and \<open>Skip\<close> everything.\<close>

lemma Take_Skip_negative:
  assumes "err q = None" and "sint n < 0"
  shows "Take spare q n = Return (zero_q\<lparr>values := map_option (\<lambda>xs. []) (values q)\<rparr>)"
    and "Skip q n = Return (zero_q\<lparr>values := values q\<rparr>)"
proof -
  have c: "clamp (values q) n = 0" using assms(2) by (simp add: clamp_def Let_def len_def)
  show "Take spare q n = Return (zero_q\<lparr>values := map_option (\<lambda>xs. []) (values q)\<rparr>)"
    using assms(1) slice_to_in_range [of 0 "values q" spare]
    by (simp add: Take_def c len_def)
  show "Skip q n = Return (zero_q\<lparr>values := values q\<rparr>)"
    using assms(1) slice_from_in_range [of 0 "values q"]
    by (simp add: Skip_def c len_def option.map_ident)
qed

text \<open>
  C5. On an unfaulted pipeline and for \<open>n \<ge> 0\<close>, \<open>Take\<close> and \<open>Skip\<close> return, without a
  panic of the slice expression and without a fault, whatever the capacity of the
  payload; \<open>Take\<close> yields the first \<open>min n (len S)\<close> elements (so \<open>Count\<close> reports that
  number), \<open>Skip\<close> yields the remaining ones, and the two results concatenated are the
  source sequence. An \<open>n\<close> beyond the length is clamped: without the two guards the slice
  expressions would panic (\<open>slice_out_of_range\<close>).
\<close>

theorem Take_Skip_partition:
  assumes "err q = None" and "0 \<le> sint n"
  shows "\<exists>t s. Take spare q n = Return t \<and> Skip q n = Return s
           \<and> err t = None \<and> err s = None
           \<and> elems (values t) = take (nat (sint n)) (elems (values q))
           \<and> length (elems (values t)) = min (nat (sint n)) (length (elems (values q)))
           \<and> Count t = (min (sint n) (len (values q)), None)
           \<and> elems (values s) = drop (nat (sint n)) (elems (values q))
           \<and> elems (values t) @ elems (values s) = elems (values q)"
proof -
  let ?c = "clamp (values q) n"
  let ?t = "zero_q\<lparr>values := map_option (take (nat ?c)) (values q)\<rparr> :: 'a queryable"
  let ?s = "zero_q\<lparr>values := map_option (drop (nat ?c)) (values q)\<rparr> :: 'a queryable"
  have r: "0 \<le> ?c" "?c \<le> len (values q)" using clamp_range [of "values q" n] by simp_all
  have c: "?c = min (sint n) (len (values q))" using assms(2) by (rule clamp_nonneg)
  have t: "Take spare q n = Return ?t"
    using assms(1) slice_to_in_range [OF r] by (simp add: Take_def)
  have s: "Skip q n = Return ?s"
    using assms(1) slice_from_in_range [OF r] by (simp add: Skip_def)
  have e: "elems (map_option f (values q)) = f (elems (values q))" if "f [] = []" for f :: "'a iface list \<Rightarrow> _"
    using that by (cases "values q") (simp_all add: elems_def)
  have et: "elems (values ?t) = take (nat (sint n)) (elems (values q))"
    using assms(2) by (simp add: e c len_def min_def)
  have es: "elems (values ?s) = drop (nat (sint n)) (elems (values q))"
    using assms(2) by (simp add: e c len_def min_def)
  have "len (values ?t) = min (sint n) (len (values q))"
    unfolding len_def et using assms(2) by (auto simp: min_def)
  then have ct: "Count ?t = (min (sint n) (len (values q)), None)"
    unfolding Count_def by (simp add: zero_q_def)
  show ?thesis
    using t s et es ct by (intro exI [of _ ?t] exI [of _ ?s]) (simp add: zero_q_def)
qed

theorem Take_Skip_partition_witness:
  "\<exists>t s. Take [Val 9] \<lparr>values = Some [Val (1::nat), Val 2, Val 3], err = None, less_q = None\<rparr> 5
            = Return t
        \<and> Skip \<lparr>values = Some [Val (1::nat), Val 2, Val 3], err = None, less_q = None\<rparr> 5
            = Return s
        \<and> err t = None \<and> err s = None
        \<and> elems (values t) = [Val 1, Val 2, Val 3] \<and> elems (values s) = []
        \<and> Count t = (3, None)"
  using Take_Skip_partition
    [of "\<lparr>values = Some [Val (1::nat), Val 2, Val 3], err = None, less_q = None\<rparr>" 5 "[Val 9]"]
  by (simp add: elems_simps len_def) blast

section \<open>Range\<close>

lemma Range_loop_eq:
  "0 \<le> sint i \<Longrightarrow> sint i \<le> sint cnt \<Longrightarrow> length vs = nat (sint cnt) \<Longrightarrow>
   Range_loop start cnt i vs
   = Return (take (nat (sint i)) vs
             @ map (\<lambda>k. Val (start + of_nat k)) [nat (sint i)..<nat (sint cnt)])"
proof (induction start cnt i vs rule: Range_loop.induct)
  case (1 start cnt i vs)
  show ?case
  proof (cases "sint i < sint cnt")
    case False
    with "1.prems" show ?thesis by (subst Range_loop.simps) simp
  next
    case True
    let ?vs' = "vs[nat (sint i) := Val (start + i)]"
    have as: "assign vs (sint i) (Val (start + i)) = Return ?vs'"
      using True "1.prems" by (simp add: assign_def)
    have s: "sint (i + 1) = sint i + 1" using True by (rule sint_succ_below)
    have IH: "Range_loop start cnt (i + 1) ?vs'
              = Return (take (nat (sint (i + 1))) ?vs'
                   @ map (\<lambda>k. Val (start + of_nat k)) [nat (sint (i + 1))..<nat (sint cnt)])"
      using "1.IH" [OF True as] "1.prems" True s by simp
    have n: "nat (sint i + 1) = Suc (nat (sint i))" using "1.prems" by simp
    have l: "nat (sint i) < length vs" using "1.prems" True by simp
    have t: "take (Suc (nat (sint i))) ?vs' = take (nat (sint i)) vs @ [Val (start + i)]"
      using l by (simp add: take_Suc_conv_app_nth)
    have u: "[nat (sint i)..<nat (sint cnt)] = nat (sint i) # [Suc (nat (sint i))..<nat (sint cnt)]"
      using True "1.prems" by (simp add: upt_conv_Cons)
    have w: "(of_nat (nat (sint i)) :: go_int) = i" using "1.prems" by simp
    show ?thesis
      using True as IH s n t u w by (subst Range_loop.simps) simp
  qed
qed

lemma Range_go_eq:
  "0 \<le> sint cnt \<Longrightarrow> sint cnt \<le> int max_len \<Longrightarrow>
   Range_go max_len start cnt
   = Return (zero_q\<lparr>values := Some (map (\<lambda>k. Val (start + of_nat k)) [0..<nat (sint cnt)])\<rparr>)"
  using Range_loop_eq [of 0 cnt "make_slice (nat (sint cnt))" start]
  by (simp add: Range_go_def make_checked_def make_slice_def)

lemma Range_go_too_long:
  "int max_len < sint cnt \<Longrightarrow> Range_go max_len start cnt = Panic"
  by (simp add: Range_go_def make_checked_def)

lemma sint_add_of_nat:
  fixes start :: go_int
  assumes "sint start + int k \<le> 9223372036854775807"
  shows "sint (start + of_nat k) = sint start + int k"
proof -
  have lo: "- (2 ^ 63) \<le> sint start" using sint_ge [of start] by simp
  have "start + of_nat k = word_of_int (sint start + int k)"
    by simp
  then have "sint (start + of_nat k) = signed_take_bit 63 (sint start + int k)"
    by (simp only: sint_sbintrunc') simp
  also have "\<dots> = sint start + int k"
    using lo assms by (intro signed_take_bit_int_eq_self) simp_all
  finally show ?thesis .
qed

text \<open>
  C6, amended. \<open>Range\<close> reports the negative-parameter fault when \<open>count\<close> is negative
  and only then. When \<open>count\<close> is not negative and not beyond the largest length that the
  run time can allocate, it returns, without a fault, exactly \<open>count\<close> integers, the
  \<open>k\<close>-th of them \<open>start + k\<close> in wrapping machine arithmetic; they are the consecutive
  integers from \<open>start\<close> whenever \<open>start + count - 1\<close> does not exceed the largest
  \<^verbatim>\<open>int\<close>. Beyond that length the call panics in \<^verbatim>\<open>make\<close>.
\<close>

theorem Range_go_spec:
  "(sint cnt < 0 \<longrightarrow> Range_go max_len start cnt = Return (zero_q\<lparr>err := Some ErrNegativeParam\<rparr>))
   \<and> (0 \<le> sint cnt \<and> sint cnt \<le> int max_len \<longrightarrow>
        (\<exists>vs. Range_go max_len start cnt = Return \<lparr>values = Some vs, err = None, less_q = None\<rparr>
              \<and> length vs = nat (sint cnt)
              \<and> (\<forall>k<length vs. vs ! k = Val (start + of_nat k))
              \<and> (sint start + sint cnt - 1 \<le> 9223372036854775807 \<longrightarrow>
                   (\<forall>k<length vs. \<exists>w. vs ! k = Val w \<and> sint w = sint start + int k))))
   \<and> (int max_len < sint cnt \<longrightarrow> Range_go max_len start cnt = Panic)"
proof (intro conjI impI)
  assume "sint cnt < 0"
  then show "Range_go max_len start cnt = Return (zero_q\<lparr>err := Some ErrNegativeParam\<rparr>)"
    by (simp add: Range_go_def)
next
  assume "int max_len < sint cnt"
  then show "Range_go max_len start cnt = Panic" by (rule Range_go_too_long)
next
  assume "0 \<le> sint cnt \<and> sint cnt \<le> int max_len"
  then have nn: "0 \<le> sint cnt" and le: "sint cnt \<le> int max_len" by simp_all
  let ?vs = "map (\<lambda>k. Val (start + of_nat k)) [0..<nat (sint cnt)]"
  have r: "Range_go max_len start cnt = Return \<lparr>values = Some ?vs, err = None, less_q = None\<rparr>"
    using Range_go_eq [OF nn le, of start] by (simp add: zero_q_def)
  have n: "\<forall>k<length ?vs. ?vs ! k = Val (start + of_nat k)" by simp
  have s: "\<forall>k<length ?vs. \<exists>w. ?vs ! k = Val w \<and> sint w = sint start + int k"
    if "sint start + sint cnt - 1 \<le> 9223372036854775807"
  proof (intro allI impI)
    fix k assume "k < length ?vs"
    then have "sint start + int k \<le> 9223372036854775807" using that nn by simp
    then have "sint (start + of_nat k) = sint start + int k" by (rule sint_add_of_nat)
    with \<open>k < length ?vs\<close> show "\<exists>w. ?vs ! k = Val w \<and> sint w = sint start + int k" by simp
  qed
  show "\<exists>vs. Range_go max_len start cnt = Return \<lparr>values = Some vs, err = None, less_q = None\<rparr>
              \<and> length vs = nat (sint cnt)
              \<and> (\<forall>k<length vs. vs ! k = Val (start + of_nat k))
              \<and> (sint start + sint cnt - 1 \<le> 9223372036854775807 \<longrightarrow>
                   (\<forall>k<length vs. \<exists>w. vs ! k = Val w \<and> sint w = sint start + int k))"
    using r n s by (intro exI [of _ ?vs]) simp
qed

theorem Range_go_spec_witness:
  "(\<exists>vs. Range_go 17592186044416 0 5 = Return \<lparr>values = Some vs, err = None, less_q = None\<rparr>
         \<and> length vs = 5
         \<and> (\<forall>k<length vs. \<exists>w. vs ! k = Val w \<and> sint w = int k))
   \<and> Range_go 17592186044416 0 5
       = Return \<lparr>values = Some [Val 0, Val 1, Val 2, Val 3, Val 4], err = None, less_q = None\<rparr>
   \<and> Range_go 17592186044416 7 (- 1) = Return (zero_q\<lparr>err := Some ErrNegativeParam\<rparr>)
   \<and> Range_go 17592186044416 0 17592186044417 = Panic"
proof -
  have a: "\<exists>vs. Range_go 17592186044416 0 5 = Return \<lparr>values = Some vs, err = None, less_q = None\<rparr>
         \<and> length vs = 5
         \<and> (\<forall>k<length vs. \<exists>w. vs ! k = Val w \<and> sint w = int k)"
    using Range_go_spec [of 5 17592186044416 0] by simp blast
  have b: "Range_go 17592186044416 0 5
       = Return \<lparr>values = Some [Val 0, Val 1, Val 2, Val 3, Val 4], err = None, less_q = None\<rparr>"
    by (simp add: Range_go_eq upt_rec zero_q_def)
  have c: "Range_go 17592186044416 7 (- 1) = Return (zero_q\<lparr>err := Some ErrNegativeParam\<rparr>)"
    using Range_go_spec [of "- 1" 17592186044416 7] by simp
  have d: "Range_go 17592186044416 0 17592186044417 = Panic"
    using Range_go_spec [of 17592186044417 17592186044416 0] by simp
  from a b c d show ?thesis by (intro conjI)
qed

text \<open>
  The claim of C6 as it is written: for all \<open>start\<close> and \<open>count\<close> the result is \<open>count\<close>
  consecutive integers starting at \<open>start\<close>. From the largest \<^verbatim>\<open>int\<close> the second
  element is the smallest \<^verbatim>\<open>int\<close>, not its successor.
\<close>

theorem Range_overflow_counterexample:
  "Range_go 17592186044416 0x7FFFFFFFFFFFFFFF 2
     = Return (zero_q\<lparr>values := Some [Val 0x7FFFFFFFFFFFFFFF, Val 0x8000000000000000]\<rparr>)
   \<and> sint (0x7FFFFFFFFFFFFFFF :: go_int) = 9223372036854775807
   \<and> sint (0x8000000000000000 :: go_int) = - 9223372036854775808"
  by (simp add: Range_go_eq upt_rec)

section \<open>Maps and Except\<close>

text \<open>On plain values the map operations are those of an association list.\<close>

lemma plain_valuesD:
  assumes "plain_values d S" and "x \<in> S"
  shows "hashable_iface d x" and "y \<in> S \<Longrightarrow> equal_iface d x y = Return (x = y)"
  using assms by (simp_all add: plain_values_def identity_eq_def)

lemma identity_eqD:
  "identity_eq d S \<Longrightarrow> x \<in> S \<Longrightarrow> y \<in> S \<Longrightarrow> equal_iface d x y = Return (x = y)"
  by (simp add: identity_eq_def)

lemma plain_dynamics_plain: "plain_values plain_dynamics S"
proof -
  have "equal_iface plain_dynamics x y = Return (x = y)" for x y :: "'a iface"
    by (cases x; cases y) (simp_all add: plain_dynamics_def)
  moreover have "hashable_iface plain_dynamics x" for x :: "'a iface"
    by (cases x) (simp_all add: hashable_iface_def plain_dynamics_def)
  ultimately show ?thesis by (simp add: plain_values_def identity_eq_def)
qed

lemma plain_dynamics_identity: "identity_eq plain_dynamics S"
  using plain_dynamics_plain [of S] by (simp add: plain_values_def)

lemma map_find_plain:
  assumes "plain_values d S" and "fst ` set m \<subseteq> S" and "k \<in> S"
  shows "map_find d m k = map_option (Pair k) (map_of m k)"
  using assms(2)
proof (induction m)
  case Nil
  show ?case by simp
next
  case (Cons p m)
  obtain k' v where p: "p = (k', v)" by (cases p)
  have "k' \<in> S" using Cons.prems by (simp add: p)
  then have e: "equal_iface d k' k = Return (k' = k)"
    using assms(1,3) by (simp add: plain_valuesD)
  show ?case using Cons e by (auto simp: p)
qed

lemma map_put_plain:
  assumes "plain_values d S" and "fst ` set m \<subseteq> S" and "k \<in> S"
  shows "map_put d m k v = AList.update k v m"
  using assms(2)
proof (induction m)
  case Nil
  show ?case by simp
next
  case (Cons p m)
  obtain k' v' where p: "p = (k', v')" by (cases p)
  have "k' \<in> S" using Cons.prems by (simp add: p)
  then have e: "equal_iface d k' k = Return (k' = k)"
    using assms(1,3) by (simp add: plain_valuesD)
  show ?case using Cons e by (auto simp: p)
qed

lemma map_remove_plain:
  assumes "plain_values d S" and "fst ` set m \<subseteq> S" and "k \<in> S"
  shows "map_remove d m k = AList.delete k m"
  using assms(2)
proof (induction m)
  case Nil
  show ?case by simp
next
  case (Cons p m)
  obtain k' v' where p: "p = (k', v')" by (cases p)
  have "k' \<in> S" using Cons.prems by (simp add: p)
  then have e: "equal_iface d k' k = Return (k' = k)"
    using assms(1,3) by (simp add: plain_valuesD)
  show ?case using Cons e by (auto simp: p)
qed

lemma map_ops_plain:
  assumes "plain_values d S" and "fst ` set m \<subseteq> S" and "k \<in> S"
  shows "map_index d m k = Return (map_of m k)"
    and "map_assign d m k v = Return (AList.update k v m)"
    and "map_delete d m k = Return (AList.delete k m)"
  using assms plain_valuesD(1) [OF assms(1,3)]
  by (simp_all add: map_index_def map_assign_def map_delete_def map_find_plain map_put_plain
        map_remove_plain option.map_comp comp_def option.map_ident)

lemma map_ops_unhashable:
  assumes "\<not> hashable_iface d k"
  shows "map_index d m k = Panic" and "map_assign d m k v = Panic" and "map_delete d m k = Panic"
  using assms by (simp_all add: map_index_def map_assign_def map_delete_def)

lemma to_set_plain:
  assumes "plain_values d S"
  shows "set vs \<subseteq> S \<Longrightarrow> fst ` set dict \<subseteq> S \<Longrightarrow> distinct (map fst dict) \<Longrightarrow>
         \<exists>dict'. to_set d vs dict = Return dict' \<and> distinct (map fst dict')
                \<and> fst ` set dict' = fst ` set dict \<union> set vs"
proof (induction vs arbitrary: dict)
  case Nil
  then show ?case by simp
next
  case (Cons v vs)
  have vS: "v \<in> S" and vsS: "set vs \<subseteq> S" using Cons.prems(1) by simp_all
  note ops = map_ops_plain [OF assms Cons.prems(2) vS]
  show ?case
  proof (cases "map_of dict v")
    case None
    let ?d = "AList.update v True dict"
    have k: "fst ` set ?d = insert v (fst ` set dict)" by (simp add: dom_update)
    have "fst ` set ?d \<subseteq> S" using k vS Cons.prems(2) by simp
    moreover have "distinct (map fst ?d)" using Cons.prems(3) by (rule distinct_update)
    ultimately obtain dict' where "to_set d vs ?d = Return dict'" "distinct (map fst dict')"
      "fst ` set dict' = fst ` set ?d \<union> set vs"
      using Cons.IH [OF vsS] by blast
    then show ?thesis using None ops k by auto
  next
    case (Some b)
    then have "v \<in> fst ` set dict" by (metis map_of_eq_None_iff option.distinct(1))
    moreover obtain dict' where "to_set d vs dict = Return dict'" "distinct (map fst dict')"
      "fst ` set dict' = fst ` set dict \<union> set vs"
      using Cons.IH [OF vsS Cons.prems(2,3)] by blast
    ultimately show ?thesis using Some ops by auto
  qed
qed

lemma delete_all_plain:
  assumes "plain_values d S"
  shows "set ys \<subseteq> S \<Longrightarrow> fst ` set m \<subseteq> S \<Longrightarrow> distinct (map fst m) \<Longrightarrow>
         \<exists>m'. delete_all d ys m = Return m' \<and> distinct (map fst m')
              \<and> fst ` set m' = fst ` set m - set ys"
proof (induction ys arbitrary: m)
  case Nil
  then show ?case by simp
next
  case (Cons y ys)
  have yS: "y \<in> S" and ysS: "set ys \<subseteq> S" using Cons.prems(1) by simp_all
  note ops = map_ops_plain [OF assms Cons.prems(2) yS]
  let ?m = "AList.delete y m"
  have "set (map fst ?m) = set (map fst m) - {y}"
    by (simp only: delete_keys set_removeAll)
  then have k: "fst ` set ?m = fst ` set m - {y}" by simp
  have "fst ` set ?m \<subseteq> S" using k Cons.prems(2) by auto
  moreover have "distinct (map fst ?m)" using Cons.prems(3) by (rule distinct_delete)
  ultimately obtain m' where "delete_all d ys ?m = Return m'" "distinct (map fst m')"
    "fst ` set m' = fst ` set ?m - set ys"
    using Cons.IH [OF ysS] by blast
  then show ?case using ops k by auto
qed

lemma to_set_unhashable:
  "\<exists>v\<in>set vs. \<not> hashable_iface d v \<Longrightarrow> to_set d vs dict = Panic"
proof (induction vs arbitrary: dict)
  case Nil
  then show ?case by simp
next
  case (Cons v vs)
  show ?case
  proof (cases "hashable_iface d v")
    case False
    then show ?thesis by (simp add: map_index_def)
  next
    case True
    with Cons.prems have "\<exists>v\<in>set vs. \<not> hashable_iface d v" by auto
    then have "to_set d vs dict' = Panic" for dict' by (rule Cons.IH)
    then show ?thesis
      using True by (simp add: map_index_def map_assign_def split: option.splits)
  qed
qed

lemma to_set_hashable:
  "\<forall>v\<in>set vs. hashable_iface d v \<Longrightarrow> \<exists>dict'. to_set d vs dict = Return dict'"
  by (induction vs arbitrary: dict)
     (auto simp: map_index_def map_assign_def split: option.splits)

lemma delete_all_unhashable:
  "\<exists>v\<in>set vs. \<not> hashable_iface d v \<Longrightarrow> delete_all d vs m = Panic"
proof (induction vs arbitrary: m)
  case Nil
  then show ?case by simp
next
  case (Cons v vs)
  show ?case
  proof (cases "hashable_iface d v")
    case False
    then show ?thesis by (simp add: map_delete_def)
  next
    case True
    with Cons.prems have "\<exists>v\<in>set vs. \<not> hashable_iface d v" by auto
    then have "delete_all d vs m' = Panic" for m' by (rule Cons.IH)
    then show ?thesis using True by (simp add: map_delete_def)
  qed
qed

lemma Except_unhashable:
  assumes "err q = None" and "\<exists>v\<in>set (elems (values q)) \<union> set ys. \<not> hashable_iface d v"
  shows "Except d ord q (Some ys) = Panic"
proof (cases "\<exists>v\<in>set (elems (values q)). \<not> hashable_iface d v")
  case True
  then have "to_set d (elems (values q)) [] = Panic" by (rule to_set_unhashable)
  then show ?thesis using assms(1) by (simp add: Except_def)
next
  case False
  then obtain set1 where s1: "to_set d (elems (values q)) [] = Return set1"
    using to_set_hashable [of "elems (values q)" d "[]"] by auto
  from False assms(2) have "\<exists>v\<in>set ys. \<not> hashable_iface d v" by auto
  then have "delete_all d ys set1 = Panic" by (rule delete_all_unhashable)
  then show ?thesis using assms(1) s1 by (simp add: Except_def)
qed

lemma delete_all_hashable:
  "\<forall>v\<in>set vs. hashable_iface d v \<Longrightarrow> \<exists>m'. delete_all d vs m = Return m'"
  by (induction vs arbitrary: m) (auto simp: map_delete_def)

lemma Except_hashable:
  assumes "iteration_order ord" and "err q = None"
    and "\<forall>v\<in>set (elems (values q)) \<union> set ys. hashable_iface d v"
  shows "\<exists>vs. Except d ord q (Some ys) = Return \<lparr>values = Some vs, err = None, less_q = None\<rparr>"
proof -
  obtain set1 where s1: "to_set d (elems (values q)) [] = Return set1"
    using to_set_hashable [of "elems (values q)" d "[]"] assms(3) by auto
  obtain set2 where s2: "delete_all d ys set1 = Return set2"
    using delete_all_hashable [of ys d set1] assms(3) by auto
  have l: "length (map fst (ord set2)) = length set2"
    using iteration_order_keys(1) [OF assms(1)] by simp
  show ?thesis
    using assms(2) fill_make_slice [OF l] by (simp add: Except_def s1 s2 zero_q_def)
qed

lemma Except_plain:
  assumes "iteration_order ord" and "err q = None"
    and "plain_values d (set (elems (values q)) \<union> set ys)"
  shows "(\<exists>vs. Except d ord q (Some ys) = Return \<lparr>values = Some vs, err = None, less_q = None\<rparr>
              \<and> set vs = set (elems (values q)) - set ys \<and> distinct vs)
       \<and> Except d ord q None = Return (zero_q\<lparr>err := Some ErrNilInput\<rparr>)"
proof -
  let ?S = "set (elems (values q)) \<union> set ys"
  from to_set_plain [OF assms(3), of "elems (values q)" "[]"]
  obtain set1 where s1: "to_set d (elems (values q)) [] = Return set1"
    and 1: "distinct (map fst set1)" "fst ` set set1 = set (elems (values q))"
    by auto
  have "fst ` set set1 \<subseteq> ?S" using 1(2) by simp
  from delete_all_plain [OF assms(3) _ this 1(1), of ys]
  obtain set2 where s2: "delete_all d ys set1 = Return set2"
    and 2: "distinct (map fst set2)" "fst ` set set2 = set (elems (values q)) - set ys"
    using 1(2) by auto
  let ?vs = "map fst (ord set2)"
  have l: "length ?vs = length set2"
    using iteration_order_keys(1) [OF assms(1)] by simp
  have d: "distinct ?vs"
    using iteration_order_keys(3) [OF assms(1), of fst set2] 2(1) by simp
  have s: "set ?vs = set (elems (values q)) - set ys"
    using iteration_order_keys(2) [OF assms(1), of fst set2] 2(2) by simp
  have "Except d ord q (Some ys) = Return (zero_q\<lparr>values := Some ?vs\<rparr>)"
    using assms(2) fill_make_slice [OF l] by (simp add: Except_def s1 s2)
  then have "Except d ord q (Some ys) = Return \<lparr>values = Some ?vs, err = None, less_q = None\<rparr>"
    by (simp add: zero_q_def)
  with d s have "\<exists>vs. Except d ord q (Some ys) = Return \<lparr>values = Some vs, err = None, less_q = None\<rparr>
              \<and> set vs = set (elems (values q)) - set ys \<and> distinct vs"
    by blast
  moreover have "Except d ord q None = Return (zero_q\<lparr>err := Some ErrNilInput\<rparr>)"
    using assms(2) by (simp add: Except_def)
  ultimately show ?thesis by blast
qed

text \<open>
  C7, amended. On an unfaulted pipeline \<open>A\<close> and a non-nil sequence \<open>B\<close> whose elements are
  plain values (each can be hashed, and \<^verbatim>\<open>==\<close> between them is identity), \<open>Except\<close>
  returns without a fault a payload whose set of values is the values of \<open>A\<close> without
  those of \<open>B\<close>, each value once, in whatever order the run time visits the map. When
  every element of \<open>A\<close> and of \<open>B\<close> can be hashed, \<open>Except\<close> returns without a fault; when
  one cannot, the call panics. With a nil \<open>B\<close> it reports the nil-input fault.
\<close>

theorem Except_set_difference:
  assumes "iteration_order ord" and "err q = None"
  shows "(plain_values d (set (elems (values q)) \<union> set ys) \<longrightarrow>
           (\<exists>vs. Except d ord q (Some ys) = Return \<lparr>values = Some vs, err = None, less_q = None\<rparr>
                 \<and> set vs = set (elems (values q)) - set ys \<and> distinct vs))
       \<and> ((\<forall>v\<in>set (elems (values q)) \<union> set ys. hashable_iface d v) \<longrightarrow>
             (\<exists>vs. Except d ord q (Some ys)
                   = Return \<lparr>values = Some vs, err = None, less_q = None\<rparr>))
       \<and> ((\<exists>v\<in>set (elems (values q)) \<union> set ys. \<not> hashable_iface d v) \<longrightarrow>
             Except d ord q (Some ys) = Panic)
       \<and> Except d ord q None = Return (zero_q\<lparr>err := Some ErrNilInput\<rparr>)"
proof (intro conjI impI)
  assume "\<forall>v\<in>set (elems (values q)) \<union> set ys. hashable_iface d v"
  with assms
  show "\<exists>vs. Except d ord q (Some ys) = Return \<lparr>values = Some vs, err = None, less_q = None\<rparr>"
    by (rule Except_hashable)
next
  assume "plain_values d (set (elems (values q)) \<union> set ys)"
  with assms
  show "\<exists>vs. Except d ord q (Some ys) = Return \<lparr>values = Some vs, err = None, less_q = None\<rparr>
              \<and> set vs = set (elems (values q)) - set ys \<and> distinct vs"
    using Except_plain [of ord q d ys] by blast
next
  assume "\<exists>v\<in>set (elems (values q)) \<union> set ys. \<not> hashable_iface d v"
  with assms(2) show "Except d ord q (Some ys) = Panic" by (rule Except_unhashable)
next
  show "Except d ord q None = Return (zero_q\<lparr>err := Some ErrNilInput\<rparr>)"
    using assms(2) by (simp add: Except_def)
qed

theorem Except_set_difference_witness:
  "(\<exists>vs. Except ex_dynamics rev
            \<lparr>values = Some [Val (ExInt 1), Val (ExInt 2), Val (ExInt 2), Val (ExInt 3)],
               err = None, less_q = None\<rparr>
            (Some [Val (ExInt 2), Val (ExInt 5)])
          = Return \<lparr>values = Some vs, err = None, less_q = None\<rparr>
        \<and> set vs = {Val (ExInt 1), Val (ExInt 3)} \<and> distinct vs)
   \<and> Except ex_dynamics rev
        \<lparr>values = Some [Val (ExInt 1), Val (ExInt 2), Val (ExInt 2), Val (ExInt 3)],
           err = None, less_q = None\<rparr>
        (Some [Val (ExInt 2), Val (ExInt 5)])
      = Return \<lparr>values = Some [Val (ExInt 3), Val (ExInt 1)], err = None, less_q = None\<rparr>
   \<and> Except ex_dynamics rev \<lparr>values = Some [Val (ExInt 1)], err = None, less_q = None\<rparr>
        (Some [Val (ExSlice [])])
      = Panic"
proof -
  let ?q = "\<lparr>values = Some [Val (ExInt 1), Val (ExInt 2), Val (ExInt 2), Val (ExInt 3)],
               err = None, less_q = None\<rparr>"
  have p: "plain_values ex_dynamics
             (set (elems (values ?q)) \<union> set [Val (ExInt 2), Val (ExInt 5)])"
    by (simp add: plain_values_def identity_eq_def hashable_iface_def ex_dynamics_def elems_def)
  have o: "iteration_order (rev :: (ex_value iface \<times> bool) list \<Rightarrow> _)"
    by (simp add: iteration_order_def)
  have a: "\<exists>vs. Except ex_dynamics rev ?q (Some [Val (ExInt 2), Val (ExInt 5)])
          = Return \<lparr>values = Some vs, err = None, less_q = None\<rparr>
        \<and> set vs = {Val (ExInt 1), Val (ExInt 3)} \<and> distinct vs"
    using Except_set_difference
        [OF o, where q = ?q and d = ex_dynamics and ys = "[Val (ExInt 2), Val (ExInt 5)]"] p
    by (simp add: elems_def insert_Diff_if)
  have b: "Except ex_dynamics rev ?q (Some [Val (ExInt 2), Val (ExInt 5)])
      = Return \<lparr>values = Some [Val (ExInt 3), Val (ExInt 1)], err = None, less_q = None\<rparr>"
    by (simp add: Except_def map_index_def map_assign_def map_delete_def hashable_iface_def
          ex_dynamics_def elems_def make_slice_def assign_def zero_q_def)
  have c: "Except ex_dynamics rev \<lparr>values = Some [Val (ExInt 1)], err = None, less_q = None\<rparr>
        (Some [Val (ExSlice [])])
      = Panic"
    using Except_set_difference
        [OF o, where q = "\<lparr>values = Some [Val (ExInt 1)], err = None, less_q = None\<rparr>"
           and d = ex_dynamics and ys = "[Val (ExSlice [])]"]
    by (simp add: elems_def hashable_iface_def ex_dynamics_def)
  from a b c show ?thesis by blast
qed

text \<open>
  The claim of C7 as it is written, for every pipeline and every sequence: an element that
  cannot be hashed, in \<open>A\<close> or in \<open>B\<close>, makes \<open>Except\<close> panic, and a NaN of \<open>A\<close> is not
  removed by a NaN of \<open>B\<close>.
\<close>

theorem Except_unhashable_counterexample:
  "Except ex_dynamics rev \<lparr>values = Some [Val (ExSlice [1])], err = None, less_q = None\<rparr> (Some [])
     = Panic
   \<and> Except ex_dynamics rev \<lparr>values = Some [Val (ExInt 1)], err = None, less_q = None\<rparr>
       (Some [Val (ExSlice [1])])
     = Panic
   \<and> Except ex_dynamics rev \<lparr>values = Some [Val ExNaN], err = None, less_q = None\<rparr>
       (Some [Val ExNaN])
     = Return \<lparr>values = Some [Val ExNaN], err = None, less_q = None\<rparr>"
  by (simp add: Except_def map_index_def map_assign_def map_delete_def hashable_iface_def
        ex_dynamics_def elems_def make_slice_def assign_def zero_q_def)

section \<open>GroupJoin\<close>

text \<open>The selectors are functions, so a memoized key is the key.\<close>

lemma memo_ok_update: "memo_ok sel lk \<Longrightarrow> memo_ok sel (AList.update x (sel x) lk)"
  by (simp add: memo_ok_def update_conv')

lemma memo_key_plain:
  assumes "plain_values db SI" and "fst ` set lk \<subseteq> SI" and "inner \<in> SI" and "memo_ok iks lk"
  shows "\<exists>lk'. memo_key db iks lk inner = Return (iks inner, lk') \<and> memo_ok iks lk'
               \<and> fst ` set lk' \<subseteq> SI"
proof (cases "map_of lk inner")
  case None
  have "fst ` set (AList.update inner (iks inner) lk) \<subseteq> SI"
    using assms(2,3) by (simp add: dom_update)
  then show ?thesis
    using None assms(4) map_ops_plain [OF assms(1-3)]
    by (simp add: memo_key_def memo_ok_update)
next
  case (Some k)
  then have "k = iks inner" using assms(4) by (simp add: memo_ok_def)
  then show ?thesis
    using Some assms(2,4) map_ops_plain [OF assms(1-3)] by (simp add: memo_key_def)
qed

lemma add_to_bucket_plain:
  assumes "plain_values da SO" and "fst ` set res \<subseteq> SO" and "outer \<in> SO"
    and "map_of res outer = Some (Some b)"
  shows "add_to_bucket da res outer inner
         = Return (AList.update outer (Some (b @ [inner])) res)"
  using assms(4) map_ops_plain [OF assms(1-3)]
  by (simp add: add_to_bucket_def append_go_def elems_def)

lemma GroupJoin_inner_eq:
  assumes "plain_values da SO" and "plain_values db SI" and "identity_eq dk SK"
    and "iks ` SI \<subseteq> SK" and "okey \<in> SK" and "outer \<in> SO"
  shows "set inners \<subseteq> SI \<Longrightarrow> fst ` set lk \<subseteq> SI \<Longrightarrow> memo_ok iks lk \<Longrightarrow>
         fst ` set res \<subseteq> SO \<Longrightarrow> map_of res outer = Some (Some b) \<Longrightarrow>
         \<exists>lk'. GroupJoin_inner da db dk iks outer okey inners (lk, res)
                = Return (lk', AList.update outer
                                 (Some (b @ filter (\<lambda>i. iks i = okey) inners)) res)
              \<and> memo_ok iks lk' \<and> fst ` set lk' \<subseteq> SI"
proof (induction inners arbitrary: lk res b)
  case Nil
  then show ?case by (simp add: update_triv)
next
  case (Cons inner rest)
  have iS: "inner \<in> SI" and rS: "set rest \<subseteq> SI" using Cons.prems(1) by simp_all
  from memo_key_plain [OF assms(2) Cons.prems(2) iS Cons.prems(3)]
  obtain lk1 where mk: "memo_key db iks lk inner = Return (iks inner, lk1)"
    and m1: "memo_ok iks lk1" and k1: "fst ` set lk1 \<subseteq> SI" by blast
  have "iks inner \<in> SK" using iS assms(4) by blast
  then have eq: "equal_iface dk (iks inner) okey = Return (iks inner = okey)"
    using assms(3,5) by (simp add: identity_eqD)
  show ?case
  proof (cases "iks inner = okey")
    case True
    let ?res1 = "AList.update outer (Some (b @ [inner])) res"
    have eqT: "equal_iface dk (iks inner) okey = Return True" using eq True by simp
    have ab: "add_to_bucket da res outer inner = Return ?res1"
      using assms(1) Cons.prems(4) assms(6) Cons.prems(5) by (rule add_to_bucket_plain)
    have step: "GroupJoin_inner da db dk iks outer okey (inner # rest) (lk, res)
                = GroupJoin_inner da db dk iks outer okey rest (lk1, ?res1)"
      by (simp add: mk eqT ab)
    have mo: "map_of ?res1 outer = Some (Some (b @ [inner]))" by (simp add: update_conv')
    have k: "fst ` set ?res1 \<subseteq> SO" using assms(6) Cons.prems(4) by (simp add: dom_update)
    from Cons.IH [OF rS k1 m1 k mo] True show ?thesis unfolding step by simp
  next
    case False
    have eqF: "equal_iface dk (iks inner) okey = Return False" using eq False by simp
    have step: "GroupJoin_inner da db dk iks outer okey (inner # rest) (lk, res)
                = GroupJoin_inner da db dk iks outer okey rest (lk1, res)"
      by (simp add: mk eqF)
    from Cons.IH [OF rS k1 m1 Cons.prems(4,5)] False show ?thesis unfolding step by simp
  qed
qed

lemma GroupJoin_outer_eq:
  assumes "plain_values da SO" and "plain_values db SI" and "identity_eq dk SK"
    and "iks ` SI \<subseteq> SK" and "oks ` SO \<subseteq> SK" and "set inners \<subseteq> SI"
  shows "set outers \<subseteq> SO \<Longrightarrow> fst ` set lk \<subseteq> SI \<Longrightarrow> memo_ok iks lk \<Longrightarrow>
         fst ` set res \<subseteq> SO \<Longrightarrow> distinct (map fst res) \<Longrightarrow>
         \<exists>lk' res'. GroupJoin_outer da db dk oks iks inners outers (lk, res) = Return (lk', res')
           \<and> distinct (map fst res')
           \<and> map_of res' = (\<lambda>outer. if outer \<in> set outers
                                then Some (Some (filter (\<lambda>i. iks i = oks outer) inners))
                                else map_of res outer)"
proof (induction outers arbitrary: lk res)
  case Nil
  then show ?case by simp
next
  case (Cons outer rest)
  have oS: "outer \<in> SO" and rS: "set rest \<subseteq> SO" using Cons.prems(1) by simp_all
  let ?res1 = "AList.update outer (Some []) res"
  let ?g = "filter (\<lambda>i. iks i = oks outer) inners"
  let ?res2 = "AList.update outer (Some ?g) res"
  have as: "map_assign da res outer (Some []) = Return ?res1"
    using assms(1) Cons.prems(4) oS by (rule map_ops_plain)
  have k1: "fst ` set ?res1 \<subseteq> SO" using oS Cons.prems(4) by (simp add: dom_update)
  have mo: "map_of ?res1 outer = Some (Some [])" by (simp add: update_conv')
  have okS: "oks outer \<in> SK" using oS assms(5) by blast
  from GroupJoin_inner_eq [OF assms(1-4) okS oS assms(6) Cons.prems(2,3) k1 mo]
  obtain lk2 where
    in2: "GroupJoin_inner da db dk iks outer (oks outer) inners (lk, ?res1) = Return (lk2, ?res2)"
    and m2: "memo_ok iks lk2" and l2: "fst ` set lk2 \<subseteq> SI" by auto
  have d2: "distinct (map fst ?res2)" using Cons.prems(5) by (rule distinct_update)
  have k2: "fst ` set ?res2 \<subseteq> SO" using oS Cons.prems(4) by (simp add: dom_update)
  from Cons.IH [OF rS l2 m2 k2 d2] obtain lk' res' where
    out: "GroupJoin_outer da db dk oks iks inners rest (lk2, ?res2) = Return (lk', res')"
    and d: "distinct (map fst res')"
    and m: "map_of res' = (\<lambda>outer. if outer \<in> set rest
                                then Some (Some (filter (\<lambda>i. iks i = oks outer) inners))
                                else map_of ?res2 outer)"
    by blast
  have "GroupJoin_outer da db dk oks iks inners (outer # rest) (lk, res) = Return (lk', res')"
    by (simp add: as in2 out)
  moreover have "map_of res' = (\<lambda>o'. if o' \<in> set (outer # rest)
                                then Some (Some (filter (\<lambda>i. iks i = oks o') inners))
                                else map_of res o')"
    by (rule ext) (simp add: m update_conv')
  ultimately show ?case using d by blast
qed

lemma alist_mset_of_map:
  assumes "distinct (map fst res)"
    and "map_of res = (\<lambda>k. if k \<in> set ks then Some (g k) else None)"
  shows "mset res = image_mset (\<lambda>k. (k, g k)) (mset (remdups ks))"
proof -
  have d1: "distinct res" using assms(1) by (simp add: distinct_map)
  have "inj_on (\<lambda>k. (k, g k)) (set (remdups ks))" by (rule inj_onI) simp
  then have d2: "distinct (map (\<lambda>k. (k, g k)) (remdups ks))" by (simp add: distinct_map)
  have "set res = set (map (\<lambda>k. (k, g k)) (remdups ks))"
  proof (rule set_eqI)
    fix p :: "'a \<times> 'b"
    obtain k v where p: "p = (k, v)" by (cases p)
    have "(k, v) \<in> set res \<longleftrightarrow> map_of res k = Some v"
      using assms(1) by simp
    also have "\<dots> \<longleftrightarrow> k \<in> set ks \<and> v = g k" by (auto simp: assms(2))
    also have "\<dots> \<longleftrightarrow> (k, v) \<in> set (map (\<lambda>k. (k, g k)) (remdups ks))" by auto
    finally show "p \<in> set res \<longleftrightarrow> p \<in> set (map (\<lambda>k. (k, g k)) (remdups ks))"
      by (simp add: p)
  qed
  then have "mset res = mset (map (\<lambda>k. (k, g k)) (remdups ks))"
    using set_eq_iff_mset_eq_distinct [OF d1 d2] by blast
  then show ?thesis by simp
qed



lemma GroupJoin_outer_unhashable:
  "\<exists>outer\<in>set outers. \<not> hashable_iface da outer \<Longrightarrow>
   GroupJoin_outer da db dk oks iks inners outers st = Panic"
proof (induction outers arbitrary: st)
  case Nil
  then show ?case by simp
next
  case (Cons outer rest)
  obtain lk res where st: "st = (lk, res)" by (cases st)
  show ?case
  proof (cases "hashable_iface da outer")
    case False
    then show ?thesis by (simp add: st map_assign_def)
  next
    case True
    with Cons.prems have "\<exists>outer\<in>set rest. \<not> hashable_iface da outer" by auto
    then have "GroupJoin_outer da db dk oks iks inners rest st' = Panic" for st'
      by (rule Cons.IH)
    then show ?thesis
      using True by (simp add: st map_assign_def Let_def split: run.splits)
  qed
qed

lemma GroupJoin_unhashable:
  assumes "err q = None" and "\<exists>outer\<in>set (elems (values q)). \<not> hashable_iface da outer"
  shows "GroupJoin da db dk ord q (Some inners) (Some oks) (Some iks) (Some rs) = Panic"
  using assms(1)
    GroupJoin_outer_unhashable [OF assms(2), of db dk oks iks inners "([], [])"]
  by (simp add: GroupJoin_def)

lemma GroupJoin_plain:
  assumes "iteration_order ord" and "err q = None"
    and "plain_values da (set (elems (values q)))"
    and "plain_values db (set inners)"
    and "identity_eq dk (oks ` set (elems (values q)) \<union> iks ` set inners)"
  shows "\<exists>vs. GroupJoin da db dk ord q (Some inners) (Some oks) (Some iks) (Some rs)
               = Return \<lparr>values = Some vs, err = None, less_q = None\<rparr>
            \<and> mset vs = image_mset
                 (\<lambda>outer. rs outer (Some (filter (\<lambda>inner. iks inner = oks outer) inners)))
                 (mset (remdups (elems (values q))))
            \<and> length vs = length (remdups (elems (values q)))
            \<and> ((\<forall>outer\<in>set (elems (values q)). \<forall>inner\<in>set inners. iks inner \<noteq> oks outer) \<longrightarrow>
                 mset vs = image_mset (\<lambda>outer. rs outer (Some []))
                             (mset (remdups (elems (values q)))))"
proof -
  let ?outers = "elems (values q)"
  let ?g = "\<lambda>outer. Some (filter (\<lambda>inner. iks inner = oks outer) inners)"
  let ?SK = "oks ` set ?outers \<union> iks ` set inners"
  have m0: "memo_ok iks []" by (simp add: memo_ok_def)
  from GroupJoin_outer_eq [OF assms(3,4,5), of iks oks inners ?outers "[]" "[]"] m0
  have "\<exists>lk res. GroupJoin_outer da db dk oks iks inners ?outers ([], []) = Return (lk, res)
          \<and> distinct (map fst res)
          \<and> map_of res = (\<lambda>outer. if outer \<in> set ?outers then Some (?g outer) else None)"
    by (simp cong: if_cong)
  then obtain lk res where
    out: "GroupJoin_outer da db dk oks iks inners ?outers ([], []) = Return (lk, res)"
    and d: "distinct (map fst res)"
    and m: "map_of res = (\<lambda>outer. if outer \<in> set ?outers then Some (?g outer) else None)"
    by blast
  have ms: "mset res = image_mset (\<lambda>k. (k, ?g k)) (mset (remdups ?outers))"
    using d m by (rule alist_mset_of_map)
  let ?vs = "map (\<lambda>(k, v). rs k v) (ord res)"
  have l: "length ?vs = length res"
    using iteration_order_keys(1) [OF assms(1)] by simp
  have r: "GroupJoin da db dk ord q (Some inners) (Some oks) (Some iks) (Some rs)
           = Return \<lparr>values = Some ?vs, err = None, less_q = None\<rparr>"
    using assms(2) fill_make_slice [OF l] by (simp add: GroupJoin_def out zero_q_def)
  have "mset ?vs = image_mset (\<lambda>(k, v). rs k v) (mset res)"
    using iteration_order_keys(4) [OF assms(1), of "\<lambda>(k, v). rs k v" res] by simp
  then have mv: "mset ?vs = image_mset (\<lambda>outer. rs outer (?g outer)) (mset (remdups ?outers))"
    by (simp add: ms image_mset.compositionality comp_def)
  have "length res = length (remdups ?outers)"
    using arg_cong [OF ms, of size] by simp
  then have lv: "length ?vs = length (remdups ?outers)"
    using l by simp
  have e: "mset ?vs = image_mset (\<lambda>outer. rs outer (Some [])) (mset (remdups ?outers))"
    if "\<forall>outer\<in>set ?outers. \<forall>inner\<in>set inners. iks inner \<noteq> oks outer"
  proof -
    have "rs outer (?g outer) = rs outer (Some [])" if "outer \<in># mset (remdups ?outers)" for outer
    proof -
      have "outer \<in> set ?outers" using that by simp
      then have "filter (\<lambda>inner. iks inner = oks outer) inners = []"
        using \<open>\<forall>outer\<in>set ?outers. \<forall>inner\<in>set inners. iks inner \<noteq> oks outer\<close>
        by (simp add: filter_empty_conv)
      then show ?thesis by simp
    qed
    then show ?thesis unfolding mv by (intro image_mset_cong)
  qed
  show ?thesis using r mv lv e by (intro exI [of _ ?vs]) simp
qed

text \<open>
  C2, amended. On an unfaulted pipeline, with a non-nil inner sequence and non-nil
  selectors, and when the outer elements and the inner elements are plain values (each
  can be hashed, and \<^verbatim>\<open>==\<close> between them is identity) and \<^verbatim>\<open>==\<close> between their keys is
  identity, \<open>GroupJoin\<close> returns
  without a fault one result of the result selector for each distinct outer value (equal
  outer elements share one group), applied to that value and to the inner elements, in
  their order, whose key equals the key of the outer value; the results come in whatever
  order the run time visits the map; when no inner key equals an outer key, every group
  is the empty slice. When an outer element cannot be hashed, the call panics.
\<close>

theorem GroupJoin_groups:
  assumes "iteration_order ord" and "err q = None"
  shows "(plain_values da (set (elems (values q))) \<and> plain_values db (set inners)
            \<and> identity_eq dk (oks ` set (elems (values q)) \<union> iks ` set inners) \<longrightarrow>
          (\<exists>vs. GroupJoin da db dk ord q (Some inners) (Some oks) (Some iks) (Some rs)
                 = Return \<lparr>values = Some vs, err = None, less_q = None\<rparr>
              \<and> mset vs = image_mset
                   (\<lambda>outer. rs outer (Some (filter (\<lambda>inner. iks inner = oks outer) inners)))
                   (mset (remdups (elems (values q))))
              \<and> length vs = length (remdups (elems (values q)))
              \<and> ((\<forall>outer\<in>set (elems (values q)). \<forall>inner\<in>set inners. iks inner \<noteq> oks outer) \<longrightarrow>
                   mset vs = image_mset (\<lambda>outer. rs outer (Some []))
                               (mset (remdups (elems (values q)))))))
       \<and> ((\<exists>outer\<in>set (elems (values q)). \<not> hashable_iface da outer) \<longrightarrow>
             GroupJoin da db dk ord q (Some inners) (Some oks) (Some iks) (Some rs) = Panic)"
proof (intro conjI impI)
  assume "plain_values da (set (elems (values q))) \<and> plain_values db (set inners)
            \<and> identity_eq dk (oks ` set (elems (values q)) \<union> iks ` set inners)"
  then have p: "plain_values da (set (elems (values q)))" "plain_values db (set inners)"
    "identity_eq dk (oks ` set (elems (values q)) \<union> iks ` set inners)"
    by simp_all
  show "\<exists>vs. GroupJoin da db dk ord q (Some inners) (Some oks) (Some iks) (Some rs)
                 = Return \<lparr>values = Some vs, err = None, less_q = None\<rparr>
              \<and> mset vs = image_mset
                   (\<lambda>outer. rs outer (Some (filter (\<lambda>inner. iks inner = oks outer) inners)))
                   (mset (remdups (elems (values q))))
              \<and> length vs = length (remdups (elems (values q)))
              \<and> ((\<forall>outer\<in>set (elems (values q)). \<forall>inner\<in>set inners. iks inner \<noteq> oks outer) \<longrightarrow>
                   mset vs = image_mset (\<lambda>outer. rs outer (Some []))
                               (mset (remdups (elems (values q)))))"
    using assms p by (rule GroupJoin_plain)
next
  assume "\<exists>outer\<in>set (elems (values q)). \<not> hashable_iface da outer"
  with assms(2)
  show "GroupJoin da db dk ord q (Some inners) (Some oks) (Some iks) (Some rs) = Panic"
    by (rule GroupJoin_unhashable)
qed

theorem GroupJoin_groups_witness:
  "(\<exists>vs. GroupJoin plain_dynamics plain_dynamics plain_dynamics rev
            \<lparr>values = Some [Val 1, Val 2, Val 1], err = None, less_q = None\<rparr>
            (Some [Val 10, Val 25, Val 11]) (Some ex_oks) (Some ex_iks) (Some ex_rs)
          = Return \<lparr>values = Some vs, err = None, less_q = None\<rparr>
        \<and> mset vs = {#Val (Val 1, Some [Val 10, Val 11]), Val (Val 2, Some [Val 25])#}
        \<and> length vs = Suc (Suc 0))
   \<and> (\<exists>vs. GroupJoin plain_dynamics plain_dynamics plain_dynamics rev
            \<lparr>values = Some [Val 1, Val 2, Val 1], err = None, less_q = None\<rparr>
            (Some [Val 30]) (Some ex_oks) (Some ex_iks) (Some ex_rs)
          = Return \<lparr>values = Some vs, err = None, less_q = None\<rparr>
        \<and> mset vs = {#Val (Val 1, Some []), Val (Val 2, Some [])#})
   \<and> GroupJoin plain_dynamics plain_dynamics plain_dynamics rev
            \<lparr>values = Some [Val 1, Val 2, Val 1], err = None, less_q = None\<rparr>
            (Some [Val 10, Val 25, Val 11]) (Some ex_oks) (Some ex_iks) (Some ex_rs)
       = Return \<lparr>values = Some [Val (Val 2, Some [Val 25]), Val (Val 1, Some [Val 10, Val 11])],
                  err = None, less_q = None\<rparr>
   \<and> GroupJoin ex_dynamics ex_dynamics ex_dynamics rev
            \<lparr>values = Some [Val (ExInt 1), Val (ExSlice [2])], err = None, less_q = None\<rparr>
            (Some []) (Some ex_key) (Some ex_key) (Some ex_pair)
       = Panic"
proof -
  let ?q = "\<lparr>values = Some [Val 1, Val 2, Val 1], err = None, less_q = None\<rparr> :: nat queryable"
  have o: "iteration_order (rev :: (nat iface \<times> nat iface slice) list \<Rightarrow> _)"
    by (simp add: iteration_order_def)
  have a: "\<exists>vs. GroupJoin plain_dynamics plain_dynamics plain_dynamics rev ?q
            (Some [Val 10, Val 25, Val 11]) (Some ex_oks) (Some ex_iks) (Some ex_rs)
          = Return \<lparr>values = Some vs, err = None, less_q = None\<rparr>
        \<and> mset vs = {#Val (Val 1, Some [Val 10, Val 11]), Val (Val 2, Some [Val 25])#}
        \<and> length vs = Suc (Suc 0)"
    using GroupJoin_groups
        [OF o, where q = ?q and da = plain_dynamics and db = plain_dynamics
           and dk = plain_dynamics and inners = "[Val 10, Val 25, Val 11]"
           and oks = ex_oks and iks = ex_iks and rs = ex_rs]
    by (simp add: plain_dynamics_plain plain_dynamics_identity elems_def ex_oks_def ex_iks_def
          ex_rs_def add_mset_commute)
  have b: "\<exists>vs. GroupJoin plain_dynamics plain_dynamics plain_dynamics rev ?q
            (Some [Val 30]) (Some ex_oks) (Some ex_iks) (Some ex_rs)
          = Return \<lparr>values = Some vs, err = None, less_q = None\<rparr>
        \<and> mset vs = {#Val (Val 1, Some []), Val (Val 2, Some [])#}"
    using GroupJoin_groups
        [OF o, where q = ?q and da = plain_dynamics and db = plain_dynamics
           and dk = plain_dynamics and inners = "[Val 30]"
           and oks = ex_oks and iks = ex_iks and rs = ex_rs]
    by (simp add: plain_dynamics_plain plain_dynamics_identity elems_def ex_oks_def ex_iks_def
          ex_rs_def add_mset_commute)
       blast
  have c: "GroupJoin plain_dynamics plain_dynamics plain_dynamics rev ?q
            (Some [Val 10, Val 25, Val 11]) (Some ex_oks) (Some ex_iks) (Some ex_rs)
       = Return \<lparr>values = Some [Val (Val 2, Some [Val 25]), Val (Val 1, Some [Val 10, Val 11])],
                  err = None, less_q = None\<rparr>"
    by (simp add: GroupJoin_def elems_def ex_oks_def ex_iks_def ex_rs_def memo_key_def
          add_to_bucket_def map_index_def map_assign_def hashable_iface_def plain_dynamics_def
          append_go_def make_slice_def assign_def zero_q_def Let_def)
  have o': "iteration_order (rev :: (ex_value iface \<times> ex_value iface slice) list \<Rightarrow> _)"
    by (simp add: iteration_order_def)
  have d: "GroupJoin ex_dynamics ex_dynamics ex_dynamics rev
            \<lparr>values = Some [Val (ExInt 1), Val (ExSlice [2])], err = None, less_q = None\<rparr>
            (Some []) (Some ex_key) (Some ex_key) (Some ex_pair)
       = Panic"
    using GroupJoin_groups
        [OF o', where q = "\<lparr>values = Some [Val (ExInt 1), Val (ExSlice [2])], err = None,
                              less_q = None\<rparr>"
           and da = ex_dynamics and db = ex_dynamics and dk = ex_dynamics and inners = "[]"
           and oks = ex_key and iks = ex_key and rs = ex_pair]
    by (simp add: elems_def hashable_iface_def ex_dynamics_def)
  from a b c d show ?thesis by blast
qed

text \<open>
  The claim of C2 as it is written, for every pipeline: an outer element that cannot be
  hashed makes \<open>GroupJoin\<close> panic, and a single NaN outer element with a matching inner
  element gets two groups, because its entry in the map is not found again.
\<close>

theorem GroupJoin_unhashable_counterexample:
  "GroupJoin ex_dynamics ex_dynamics ex_dynamics rev
     \<lparr>values = Some [Val (ExSlice [1])], err = None, less_q = None\<rparr>
     (Some [Val (ExInt 1)]) (Some ex_key) (Some ex_key) (Some ex_pair)
   = Panic
   \<and> GroupJoin ex_dynamics ex_dynamics ex_dynamics rev
     \<lparr>values = Some [Val ExNaN], err = None, less_q = None\<rparr>
     (Some [Val (ExInt 1)]) (Some ex_key) (Some ex_key) (Some ex_pair)
   = Return \<lparr>values = Some [Val (Val ExNaN, Some [Val (ExInt 1)]), Val (Val ExNaN, Some [])],
              err = None, less_q = None\<rparr>"
  by (simp add: GroupJoin_def elems_def ex_key_def ex_pair_def memo_key_def
        add_to_bucket_def map_index_def map_assign_def hashable_iface_def ex_dynamics_def
        append_go_def make_slice_def assign_def zero_q_def Let_def)

end
